theory Spec2Isabelle
  imports Complex_Main
begin

section \<open>Data model\<close>

text \<open>
  The lexical dataset is a JSON object from word to entry, a plain object whose
  prototype is \<open>Object.prototype\<close>. Its own properties are modelled as an association
  list in \<open>Object.keys\<close> order. A property read \<open>data[w]\<close> follows the prototype chain:
  it yields the own entry when \<open>w\<close> is a key, a member of \<open>Object.prototype\<close> when \<open>w\<close>
  is one of its twelve property names (a function, or the prototype object itself
  for \<open>__proto__\<close>), and \<open>undefined\<close> otherwise. An inherited member is truthy, and its
  \<open>relatedWords\<close> and \<open>definition\<close> are \<open>undefined\<close>. JavaScript numbers that count
  (depths, sizes, weights) are \<open>int\<close>; the result of a floating-point product is a
  \<open>real\<close>, rounded as described below.
\<close>

record WordEntry =
  entry_definition :: string
  entry_relatedWords :: "string list"

type_synonym EtymologyData = "(string \<times> WordEntry) list"

datatype js_value = Undefined | EntryObject WordEntry | Inherited

definition prototypeNames :: "string list" where
  "prototypeNames =
     [''constructor'', ''__proto__'', ''hasOwnProperty'', ''isPrototypeOf'',
      ''propertyIsEnumerable'', ''toLocaleString'', ''toString'', ''valueOf'',
      ''__defineGetter__'', ''__defineSetter__'', ''__lookupGetter__'', ''__lookupSetter__'']"

definition ownEntry :: "EtymologyData \<Rightarrow> string \<Rightarrow> WordEntry option" where
  "ownEntry data w = map_of data w"

definition lookup :: "EtymologyData \<Rightarrow> string \<Rightarrow> js_value" where
  "lookup data w =
     (case ownEntry data w of
        Some entry \<Rightarrow> EntryObject entry
      | None \<Rightarrow> if w \<in> set prototypeNames then Inherited else Undefined)"

definition keys :: "EtymologyData \<Rightarrow> string list" where
  "keys data = map fst data"

text \<open>
  The \<open>definition\<close> and \<open>relatedWords\<close> fields of a node are copied from the value the
  lookup gave; they are \<open>undefined\<close> (\<open>None\<close>) when that value was an inherited member.
\<close>

record GraphNode =
  node_id :: string
  node_word :: string
  node_definition :: "string option"
  node_depth :: int
  node_relatedWords :: "string list option"

record GraphEdge =
  edge_from :: string
  edge_to :: string

record Graph =
  nodes :: "GraphNode list"
  edges :: "GraphEdge list"

record SamplingEntry =
  word :: string
  numConnections :: int
  graphSize :: int
  cumulativeWeight :: int

record SamplingTable =
  totalWeight :: int
  words :: "SamplingEntry list"

datatype js_error = TypeError | NoWordsInDatabase

subsection \<open>Normalisation: \<open>w.toLowerCase().trim()\<close>\<close>

text \<open>
  Strings are lists of 8-bit characters. \<open>toLowerCase\<close> maps the ASCII capitals and
  leaves every other character alone; \<open>trim\<close> strips ASCII white space (space, tab,
  line feed, vertical tab, form feed, carriage return) at both ends. On text outside
  ASCII the JavaScript functions also fold and strip Unicode characters, which this
  model of strings cannot express. No general theorem below depends on what
  normalisation does to a string, only on its being a function; the examples are
  ASCII.
\<close>

definition isSpace :: "char \<Rightarrow> bool" where
  "isSpace c = (let n = (of_char c :: nat) in n = 32 \<or> (9 \<le> n \<and> n \<le> 13))"

definition toLowerCase :: "string \<Rightarrow> string" where
  "toLowerCase s = map (\<lambda>c. let n = (of_char c :: nat) in
      if 65 \<le> n \<and> n \<le> 90 then char_of (n + 32) else c) s"

definition trim :: "string \<Rightarrow> string" where
  "trim s = rev (dropWhile isSpace (rev (dropWhile isSpace s)))"

definition normalize_word :: "string \<Rightarrow> string" where
  "normalize_word w = trim (toLowerCase w)"

section \<open>Floating-point products\<close>

text \<open>
  A JavaScript number is an IEEE 754 binary64 value, and \<open>x * y\<close> is the exact product
  rounded to the nearest such value, ties to the even significand. \<open>roundDouble\<close> is
  that rounding, on the reals: around \<open>x\<close> the values are \<open>ulp x\<close> apart, 2 to the power
  of the binary exponent of \<open>x\<close> minus 52, where the exponent is at least \<open>-1022\<close>
  (below it the values are subnormal and equally spaced). Overflow to \<open>Infinity\<close> is
  not modelled; the products below have a factor of magnitude below 1 or at most the
  length of an array. \<open>mulDouble\<close> is the operator \<open>*\<close>.
\<close>

definition roundHalfEven :: "real \<Rightarrow> int" where
  "roundHalfEven y =
     (if y - real_of_int \<lfloor>y\<rfloor> < 1/2 then \<lfloor>y\<rfloor>
      else if 1/2 < y - real_of_int \<lfloor>y\<rfloor> then \<lfloor>y\<rfloor> + 1
      else if even \<lfloor>y\<rfloor> then \<lfloor>y\<rfloor> else \<lfloor>y\<rfloor> + 1)"

definition binaryExponent :: "real \<Rightarrow> int" where
  "binaryExponent x = max \<lfloor>log 2 \<bar>x\<bar>\<rfloor> (- 1022)"

definition ulp :: "real \<Rightarrow> real" where
  "ulp x = 2 powr real_of_int (binaryExponent x - 52)"

definition roundDouble :: "real \<Rightarrow> real" where
  "roundDouble x =
     (if x = 0 then 0
      else sgn x * (real_of_int (roundHalfEven (\<bar>x\<bar> / ulp x)) * ulp x))"

definition mulDouble :: "real \<Rightarrow> real \<Rightarrow> real" where
  "mulDouble x y = roundDouble (x * y)"

section \<open>Weighted sampling (\<open>getRandomWord\<close>, fast path)\<close>

text \<open>
  An array read \<open>words[i]\<close> out of range yields \<open>undefined\<close>, and reading a field of
  it throws a \<open>TypeError\<close>; \<open>entryAt\<close> makes the out-of-range case a value.
\<close>

definition entryAt :: "'a list \<Rightarrow> nat \<Rightarrow> 'a option" where
  "entryAt xs i = (if i < length xs then Some (xs ! i) else None)"

definition entryAtInt :: "'a list \<Rightarrow> int \<Rightarrow> 'a option" where
  "entryAtInt xs i = (if 0 \<le> i \<and> i < int (length xs) then Some (xs ! nat i) else None)"

text \<open>
  The loop \<open>while (left < right) { mid = floor((left + right) / 2); ... }\<close> of
  \<open>getRandomWord\<close> (lambda/getRandom/storage.ts and the \<open>MemStorage\<close> class bundled in
  lambda/getWord/index.ts; the two loops are the same text). \<open>random\<close> is the value
  of the variable \<open>random\<close>, a double.
\<close>

function binarySearch :: "SamplingEntry list \<Rightarrow> real \<Rightarrow> nat \<Rightarrow> nat \<Rightarrow> js_error + nat" where
  "binarySearch ws random left right =
     (if left < right then
        (case entryAt ws ((left + right) div 2) of
           None \<Rightarrow> Inl TypeError
         | Some e \<Rightarrow>
             if real_of_int (cumulativeWeight e) < random
             then binarySearch ws random ((left + right) div 2 + 1) right
             else binarySearch ws random left ((left + right) div 2))
      else Inr left)"
  by pat_completeness auto
termination
  by (relation "measure (\<lambda>(ws, random, left, right). right - left)") auto

declare binarySearch.simps [simp del]

text \<open>The fast path for a table with at least one entry: search, then \<open>words[left].word\<close>.\<close>

definition sampleAt :: "SamplingEntry list \<Rightarrow> real \<Rightarrow> js_error + string" where
  "sampleAt ws random =
     (case binarySearch ws random 0 (length ws - 1) of
        Inl err \<Rightarrow> Inl err
      | Inr left \<Rightarrow> (case entryAt ws left of None \<Rightarrow> Inl TypeError | Some e \<Rightarrow> Inr (word e)))"

text \<open>\<open>const random = Math.random() * totalWeight\<close>, then the search.\<close>

definition sample :: "SamplingTable \<Rightarrow> real \<Rightarrow> js_error + string" where
  "sample stats randomUnit =
     sampleAt (words stats) (mulDouble randomUnit (real_of_int (totalWeight stats)))"

text \<open>
  The fallback loop shared by both variants: the first word of the list whose entry
  has a related word. \<open>entry && entry.relatedWords.length > 0\<close> reads \<open>length\<close> of
  \<open>undefined\<close> when the lookup gives an inherited member.
\<close>

fun firstConnected :: "EtymologyData \<Rightarrow> string list \<Rightarrow> js_error + string option" where
  "firstConnected data [] = Inr None"
| "firstConnected data (w # rest) =
     (case lookup data w of
        Undefined \<Rightarrow> firstConnected data rest
      | EntryObject entry \<Rightarrow>
          if length (entry_relatedWords entry) > 0 then Inr (Some w)
          else firstConnected data rest
      | Inherited \<Rightarrow> Inl TypeError)"

text \<open>
  \<open>MemStorage.getRandomWord\<close> of lambda/getWord/index.ts. \<open>stats\<close> is \<open>this.wordStats\<close>
  after \<open>loadWordStats\<close> (\<open>None\<close> when the file could not be read); \<open>randomUnit\<close> is the
  value of \<open>Math.random()\<close>. \<open>Inr None\<close> is the result \<open>undefined\<close>.
\<close>

definition getRandomWord :: "EtymologyData \<Rightarrow> SamplingTable option \<Rightarrow> real \<Rightarrow> js_error + string option" where
  "getRandomWord data stats randomUnit =
     (case stats of
        Some st \<Rightarrow>
          if length (words st) > 0 then
            (case sample st randomUnit of Inl err \<Rightarrow> Inl err | Inr w \<Rightarrow> Inr (Some w))
          else firstConnected data (keys data)
      | None \<Rightarrow> firstConnected data (keys data))"

text \<open>
  \<open>getRandomWord\<close> of lambda/getRandom/storage.ts. \<open>loadWordStats\<close> rejects a parsed
  table whose \<open>totalWeight\<close> is falsy (zero). After the fallback there is a last
  resort, a uniformly drawn key (second random value), and an exception for the
  empty index.
\<close>

definition loadWordStats :: "SamplingTable option \<Rightarrow> SamplingTable option" where
  "loadWordStats parsed =
     (case parsed of
        None \<Rightarrow> None
      | Some st \<Rightarrow> if totalWeight st = 0 then None else Some st)"

definition getRandomWord_lambda ::
  "EtymologyData \<Rightarrow> SamplingTable option \<Rightarrow> real \<Rightarrow> real \<Rightarrow> js_error + string option" where
  "getRandomWord_lambda data parsed randomUnit randomUnit2 =
     (let fallback =
        (case firstConnected data (keys data) of
           Inl err \<Rightarrow> Inl err
         | Inr (Some w) \<Rightarrow> Inr (Some w)
         | Inr None \<Rightarrow>
             if length (keys data) > 0
             then Inr (entryAtInt (keys data)
                         \<lfloor>mulDouble randomUnit2 (real (length (keys data)))\<rfloor>)
             else Inl NoWordsInDatabase)
      in case loadWordStats parsed of
           Some st \<Rightarrow>
             if length (words st) > 0 then
               (case sample st randomUnit of Inl err \<Rightarrow> Inl err | Inr w \<Rightarrow> Inr (Some w))
             else fallback
         | None \<Rightarrow> fallback)"

subsection \<open>The retry variant\<close>

text \<open>
  \<open>MemStorage.getRandomWord\<close> of the server's storage class: up to 100 draws for a
  word \<open>X\<close> with related words, then up to 100 draws among the related words of \<open>X\<close>
  for a word \<open>Y\<close> with related words, and \<open>wordY || wordX\<close>. \<open>rs k\<close> is the value of the
  \<open>k\<close>-th call of \<open>Math.random()\<close>. A candidate read out of range is \<open>undefined\<close>, whose
  property key is the string \<open>undefined\<close> (\<open>propertyKey\<close>). The empty string is falsy:
  \<open>!wordX\<close> and \<open>wordY || wordX\<close> treat it like \<open>undefined\<close>. \<open>pickX\<close> returns the
  candidate, its entry and the number of draws used.
\<close>

definition maxAttempts :: nat where
  "maxAttempts = 100"

definition propertyKey :: "string option \<Rightarrow> string" where
  "propertyKey candidate = (case candidate of None \<Rightarrow> ''undefined'' | Some w \<Rightarrow> w)"

definition drawIndex :: "real \<Rightarrow> nat \<Rightarrow> int" where
  "drawIndex randomUnit n = \<lfloor>mulDouble randomUnit (real n)\<rfloor>"

function pickX ::
  "EtymologyData \<Rightarrow> string list \<Rightarrow> (nat \<Rightarrow> real) \<Rightarrow> nat
   \<Rightarrow> js_error + (string option \<times> WordEntry \<times> nat) option" where
  "pickX data ws rs attempts =
     (if attempts < maxAttempts then
        (case lookup data (propertyKey (entryAtInt ws (drawIndex (rs attempts) (length ws)))) of
           Undefined \<Rightarrow> pickX data ws rs (attempts + 1)
         | EntryObject entry \<Rightarrow>
             if length (entry_relatedWords entry) > 0
             then Inr (Some (entryAtInt ws (drawIndex (rs attempts) (length ws)),
                             entry, attempts + 1))
             else pickX data ws rs (attempts + 1)
         | Inherited \<Rightarrow> Inl TypeError)
      else Inr None)"
  by pat_completeness auto
termination
  by (relation "measure (\<lambda>(data, ws, rs, attempts). maxAttempts - attempts)") auto

declare pickX.simps [simp del]

function pickY ::
  "EtymologyData \<Rightarrow> WordEntry \<Rightarrow> (nat \<Rightarrow> real) \<Rightarrow> nat \<Rightarrow> nat \<Rightarrow> js_error + string option" where
  "pickY data entryX rs used attempts =
     (if attempts < maxAttempts then
        (case entryAtInt (entry_relatedWords entryX)
                (drawIndex (rs (used + attempts)) (length (entry_relatedWords entryX))) of
           None \<Rightarrow> Inl TypeError
         | Some relatedWord \<Rightarrow>
             (case lookup data (normalize_word relatedWord) of
                Undefined \<Rightarrow> pickY data entryX rs used (attempts + 1)
              | EntryObject entryY \<Rightarrow>
                  if length (entry_relatedWords entryY) > 0
                  then Inr (Some (normalize_word relatedWord))
                  else pickY data entryX rs used (attempts + 1)
              | Inherited \<Rightarrow> Inl TypeError))
      else Inr None)"
  by pat_completeness auto
termination
  by (relation "measure (\<lambda>(data, entryX, rs, used, attempts). maxAttempts - attempts)") auto

declare pickY.simps [simp del]

definition getRandomWord_retry :: "EtymologyData \<Rightarrow> (nat \<Rightarrow> real) \<Rightarrow> js_error + string option" where
  "getRandomWord_retry data rs =
     (let ws = keys data in
      if length ws = 0 then Inr None
      else (case pickX data ws rs 0 of
              Inl err \<Rightarrow> Inl err
            | Inr None \<Rightarrow> Inr None
            | Inr (Some (wordX, entryX, used)) \<Rightarrow>
                if wordX = None \<or> wordX = Some [] then Inr None
                else (case pickY data entryX rs used 0 of
                        Inl err \<Rightarrow> Inl err
                      | Inr None \<Rightarrow> Inr wordX
                      | Inr (Some wordY) \<Rightarrow> Inr (if wordY = [] then wordX else Some wordY))))"

section \<open>GraphBuilder, marking visited at enqueue time\<close>

text \<open>
  \<open>MemStorage.getWordGraph\<close> (the server's storage class; the same text is bundled in
  lambda/getWord/index.ts). The local variables of the loop are the fields of
  \<open>BfsState\<close>; \<open>relatedStep\<close> is the body of the inner \<open>for\<close> loop, \<open>processRelated\<close>
  the inner loop, \<open>bfsLoop\<close> the \<open>while (queue.length > 0)\<close> loop. The depth bound
  is an \<open>int\<close>: a negative bound is an input the function accepts. The loop
  \<open>for (const relatedWord of entry.relatedWords)\<close> throws a \<open>TypeError\<close> when
  \<open>entry\<close> is an inherited member, whose \<open>relatedWords\<close> is \<open>undefined\<close>.
\<close>

record BfsState =
  st_nodes :: "GraphNode list"
  st_edges :: "GraphEdge list"
  st_visited :: "string set"
  st_nodeDepthMap :: "string \<Rightarrow> int option"
  st_queue :: "(string \<times> int) list"

definition mkNode :: "string \<Rightarrow> WordEntry \<Rightarrow> int \<Rightarrow> GraphNode" where
  "mkNode w entry d =
     \<lparr>node_id = w, node_word = w, node_definition = Some (entry_definition entry),
      node_depth = d, node_relatedWords = Some (entry_relatedWords entry)\<rparr>"

definition inheritedNode :: "string \<Rightarrow> int \<Rightarrow> GraphNode" where
  "inheritedNode w d =
     \<lparr>node_id = w, node_word = w, node_definition = None,
      node_depth = d, node_relatedWords = None\<rparr>"

definition edgeExists :: "GraphEdge list \<Rightarrow> string \<Rightarrow> string \<Rightarrow> bool" where
  "edgeExists es a b =
     list_ex (\<lambda>e. (edge_from e = a \<and> edge_to e = b) \<or> (edge_from e = b \<and> edge_to e = a)) es"

definition relatedStep ::
  "EtymologyData \<Rightarrow> int \<Rightarrow> string \<Rightarrow> int \<Rightarrow> string \<Rightarrow> BfsState \<Rightarrow> BfsState" where
  "relatedStep data depth currentWord currentDepth relatedWord s =
     (let normalizedRelated = normalize_word relatedWord in
      if lookup data normalizedRelated = Undefined then s
      else
        let s1 = (if \<not> edgeExists (st_edges s) currentWord normalizedRelated
                  then s\<lparr>st_edges := st_edges s @
                         [\<lparr>edge_from = currentWord, edge_to = normalizedRelated\<rparr>]\<rparr>
                  else s)
        in if normalizedRelated \<notin> st_visited s1
           then (let newDepth = currentDepth + 1 in
                 if newDepth \<le> depth
                 then s1\<lparr>st_visited := insert normalizedRelated (st_visited s1),
                         st_nodeDepthMap := (st_nodeDepthMap s1)(normalizedRelated \<mapsto> newDepth),
                         st_queue := st_queue s1 @ [(normalizedRelated, newDepth)]\<rparr>
                 else s1)
           else s1)"

fun processRelated ::
  "EtymologyData \<Rightarrow> int \<Rightarrow> string \<Rightarrow> int \<Rightarrow> string list \<Rightarrow> BfsState \<Rightarrow> BfsState" where
  "processRelated data depth currentWord currentDepth [] s = s"
| "processRelated data depth currentWord currentDepth (relatedWord # rest) s =
     processRelated data depth currentWord currentDepth rest
       (relatedStep data depth currentWord currentDepth relatedWord s)"

text \<open>
  The words for which a lookup is truthy are the keys and the inherited names, a
  finite set. Each step of the inner loop either marks a new one of them as visited
  or leaves the visited set and the queue alone: the outer loop terminates.
\<close>

definition truthyNames :: "EtymologyData \<Rightarrow> string set" where
  "truthyNames data = set (keys data) \<union> set prototypeNames"

lemma truthy_iff: "lookup data w \<noteq> Undefined \<longleftrightarrow> w \<in> truthyNames data"
proof (cases "map_of data w")
  case None
  then have "w \<notin> fst ` set data" by (simp add: map_of_eq_None_iff)
  then show ?thesis using None by (simp add: lookup_def ownEntry_def truthyNames_def keys_def)
next
  case (Some e)
  then have "w \<in> fst ` set data" by (metis map_of_eq_None_iff option.distinct(1))
  then show ?thesis using Some by (simp add: lookup_def ownEntry_def truthyNames_def keys_def)
qed

lemma lookup_truthy: "lookup data w \<noteq> Undefined \<Longrightarrow> w \<in> truthyNames data"
  by (simp add: truthy_iff)

lemma finite_truthyNames [simp]: "finite (truthyNames data)"
  by (simp add: truthyNames_def)

lemma relatedStep_progress:
  "(truthyNames data - st_visited (relatedStep data depth cw cd r s)
      \<subset> truthyNames data - st_visited s)
   \<or> (st_visited (relatedStep data depth cw cd r s) = st_visited s
      \<and> st_queue (relatedStep data depth cw cd r s) = st_queue s)"
  using lookup_truthy[of data "normalize_word r"]
  by (auto simp: relatedStep_def Let_def)

lemma processRelated_progress:
  "(truthyNames data - st_visited (processRelated data depth cw cd rels s)
      \<subset> truthyNames data - st_visited s)
   \<or> (st_visited (processRelated data depth cw cd rels s) = st_visited s
      \<and> st_queue (processRelated data depth cw cd rels s) = st_queue s)"
proof (induction rels arbitrary: s)
  case Nil
  then show ?case by simp
next
  case (Cons r rels)
  from Cons.IH[of "relatedStep data depth cw cd r s"] relatedStep_progress[of data depth cw cd r s]
  show ?case by (auto simp del: Diff_iff) 
qed

function bfsLoop :: "EtymologyData \<Rightarrow> int \<Rightarrow> BfsState \<Rightarrow> js_error + BfsState" where
  "bfsLoop data depth s =
     (case st_queue s of
        [] \<Rightarrow> Inr s
      | (currentWord, currentDepth) # q \<Rightarrow>
          if currentDepth > depth then bfsLoop data depth (s\<lparr>st_queue := q\<rparr>)
          else (case lookup data currentWord of
                  Undefined \<Rightarrow> bfsLoop data depth (s\<lparr>st_queue := q\<rparr>)
                | EntryObject entry \<Rightarrow>
                    bfsLoop data depth
                      (processRelated data depth currentWord currentDepth
                         (entry_relatedWords entry)
                         (s\<lparr>st_queue := q,
                            st_nodes := st_nodes s @ [mkNode currentWord entry currentDepth]\<rparr>))
                | Inherited \<Rightarrow> Inl TypeError))"
  by pat_completeness auto
termination
proof (relation "(\<lambda>(data, depth, s). card (truthyNames data - st_visited s))
                 <*mlex*> measure (\<lambda>(data, depth, s). length (st_queue s))", goal_cases)
  case 1
  then show ?case by (simp add: wf_mlex)
next
  case (2 data depth s x21 x22 x y)
  then show ?case by (auto intro!: mlex_leq)
next
  case (3 data depth s x21 x22 x y)
  then show ?case by (auto intro!: mlex_leq)
next
  case (4 data depth s x21 x22 cw cd entry)
  let ?s0 = "s\<lparr>st_queue := x22, st_nodes := st_nodes s @ [mkNode cw entry cd]\<rparr>"
  let ?s' = "processRelated data depth cw cd (entry_relatedWords entry) ?s0"
  have fin: "finite (truthyNames data - st_visited s)" by simp
  from processRelated_progress[of data depth cw cd "entry_relatedWords entry" ?s0]
  show ?case
  proof
    assume "truthyNames data - st_visited ?s' \<subset> truthyNames data - st_visited ?s0"
    then have "card (truthyNames data - st_visited ?s') < card (truthyNames data - st_visited s)"
      using fin by (simp add: psubset_card_mono)
    then show ?thesis by (auto intro!: mlex_less)
  next
    assume "st_visited ?s' = st_visited ?s0 \<and> st_queue ?s' = st_queue ?s0"
    then show ?thesis using 4 by (auto intro!: mlex_leq)
  qed
qed

declare bfsLoop.simps [simp del]


section \<open>GraphBuilder, marking visited at dequeue time\<close>

text \<open>
  \<open>getWordGraph\<close> of the lambda storage modules (lambda/getWord/storage.ts, and an
  earlier copy of it that returns without hub pruning): a word is marked when it is
  dequeued, so the queue may hold a word several times. Here the inner loop runs
  over \<open>entry.relatedWords || []\<close>: for an inherited member the node is pushed with
  \<open>undefined\<close> fields and the inner loop does nothing.
\<close>

record ScanState =
  sc_nodes :: "GraphNode list"
  sc_edges :: "GraphEdge list"
  sc_visited :: "string set"
  sc_queue :: "(string \<times> int) list"

definition scanStep ::
  "EtymologyData \<Rightarrow> int \<Rightarrow> string \<Rightarrow> int \<Rightarrow> string \<Rightarrow> ScanState \<Rightarrow> ScanState" where
  "scanStep data depth currentWord currentDepth relatedWord s =
     (let normalizedRelated = normalize_word relatedWord in
      if normalizedRelated \<notin> sc_visited s \<and> lookup data normalizedRelated \<noteq> Undefined
      then (let s1 = s\<lparr>sc_edges := sc_edges s @
                        [\<lparr>edge_from = currentWord, edge_to = normalizedRelated\<rparr>]\<rparr>
            in if currentDepth < depth
               then s1\<lparr>sc_queue := sc_queue s1 @ [(normalizedRelated, currentDepth + 1)]\<rparr>
               else s1)
      else s)"

fun scanRelated ::
  "EtymologyData \<Rightarrow> int \<Rightarrow> string \<Rightarrow> int \<Rightarrow> string list \<Rightarrow> ScanState \<Rightarrow> ScanState" where
  "scanRelated data depth currentWord currentDepth [] s = s"
| "scanRelated data depth currentWord currentDepth (relatedWord # rest) s =
     scanRelated data depth currentWord currentDepth rest
       (scanStep data depth currentWord currentDepth relatedWord s)"

lemma scanStep_frame:
  "sc_visited (scanStep data depth cw cd r s) = sc_visited s"
  "sc_nodes (scanStep data depth cw cd r s) = sc_nodes s"
  "\<exists>new. sc_queue (scanStep data depth cw cd r s) = sc_queue s @ new
         \<and> fst ` set new \<subseteq> truthyNames data"
  using lookup_truthy[of data "normalize_word r"]
  by (auto simp: scanStep_def Let_def)

lemma scanRelated_frame:
  "sc_visited (scanRelated data depth cw cd rels s) = sc_visited s"
  "sc_nodes (scanRelated data depth cw cd rels s) = sc_nodes s"
  "\<exists>new. sc_queue (scanRelated data depth cw cd rels s) = sc_queue s @ new
         \<and> fst ` set new \<subseteq> truthyNames data"
proof (induction rels arbitrary: s)
  case Nil
  { case 1 show ?case by simp }
  { case 2 show ?case by simp }
  { case 3 show ?case by simp }
next
  case (Cons r rels)
  { case 1 show ?case using Cons.IH(1) by (simp add: scanStep_frame) }
  { case 2 show ?case using Cons.IH(2) by (simp add: scanStep_frame) }
  { case 3
    from scanStep_frame(3)[of data depth cw cd r s]
    obtain n1 where n1: "sc_queue (scanStep data depth cw cd r s) = sc_queue s @ n1"
      "fst ` set n1 \<subseteq> truthyNames data" by blast
    from Cons.IH(3)[of "scanStep data depth cw cd r s"]
    obtain n2 where n2: "sc_queue (scanRelated data depth cw cd rels (scanStep data depth cw cd r s))
        = sc_queue (scanStep data depth cw cd r s) @ n2" "fst ` set n2 \<subseteq> truthyNames data"
      by blast
    have "sc_queue (scanRelated data depth cw cd (r # rels) s) = sc_queue s @ (n1 @ n2)"
      using n1 n2 by simp
    moreover have "fst ` set (n1 @ n2) \<subseteq> truthyNames data" using n1 n2 by auto
    ultimately show ?case by blast }
qed

lemma pending_psubset:
  "w \<notin> V \<Longrightarrow> w \<in> Q \<Longrightarrow> Q' \<subseteq> K \<union> Q \<Longrightarrow> (K \<union> Q') - insert w V \<subset> (K \<union> Q) - V"
  by blast

lemma pending_subset:
  "Q' \<subseteq> Q \<Longrightarrow> (K \<union> Q') - V \<subseteq> (K \<union> Q) - (V::'a set)"
  by blast

definition scanPending :: "EtymologyData \<Rightarrow> ScanState \<Rightarrow> string set" where
  "scanPending data s = (truthyNames data \<union> fst ` set (sc_queue s)) - sc_visited s"

function scanLoop :: "EtymologyData \<Rightarrow> int \<Rightarrow> ScanState \<Rightarrow> ScanState" where
  "scanLoop data depth s =
     (case sc_queue s of
        [] \<Rightarrow> s
      | (currentWord, currentDepth) # q \<Rightarrow>
          if currentWord \<in> sc_visited s \<or> currentDepth > depth
          then scanLoop data depth (s\<lparr>sc_queue := q\<rparr>)
          else (case lookup data currentWord of
                  Undefined \<Rightarrow>
                    scanLoop data depth
                      (s\<lparr>sc_queue := q, sc_visited := insert currentWord (sc_visited s)\<rparr>)
                | EntryObject entry \<Rightarrow>
                    scanLoop data depth
                      (scanRelated data depth currentWord currentDepth
                         (entry_relatedWords entry)
                         (s\<lparr>sc_queue := q,
                            sc_visited := insert currentWord (sc_visited s),
                            sc_nodes := sc_nodes s @ [mkNode currentWord entry currentDepth]\<rparr>))
                | Inherited \<Rightarrow>
                    scanLoop data depth
                      (s\<lparr>sc_queue := q,
                         sc_visited := insert currentWord (sc_visited s),
                         sc_nodes := sc_nodes s @ [inheritedNode currentWord currentDepth]\<rparr>)))"
  by pat_completeness auto
termination
proof (relation "(\<lambda>(data, depth, s). card (scanPending data s))
                 <*mlex*> measure (\<lambda>(data, depth, s). length (sc_queue s))", goal_cases)
  case 1
  then show ?case by (simp add: wf_mlex)
next
  case (2 data depth s x21 x22 cw cd)
  have q: "sc_queue s = (cw, cd) # x22" using 2 by simp
  have "scanPending data (s\<lparr>sc_queue := x22\<rparr>) \<subseteq> scanPending data s"
    unfolding scanPending_def by (simp add: q) blast
  moreover have "finite (scanPending data s)" by (simp add: scanPending_def)
  ultimately have "card (scanPending data (s\<lparr>sc_queue := x22\<rparr>)) \<le> card (scanPending data s)"
    by (rule card_mono[rotated])
  moreover have "length x22 < length (sc_queue s)" by (simp add: q)
  ultimately show ?case by (intro mlex_leq) simp_all
next
  case (3 data depth s x21 x22 cw cd)
  have q: "sc_queue s = (cw, cd) # x22" using 3 by simp
  have nv: "cw \<notin> sc_visited s" using 3 by simp
  have "(truthyNames data \<union> fst ` set x22) - insert cw (sc_visited s)
      \<subset> (truthyNames data \<union> fst ` set (sc_queue s)) - sc_visited s"
    by (rule pending_psubset[OF nv]) (auto simp: q)
  then have "scanPending data (s\<lparr>sc_queue := x22, sc_visited := insert cw (sc_visited s)\<rparr>)
      \<subset> scanPending data s"
    by (simp add: scanPending_def)
  moreover have "finite (scanPending data s)" by (simp add: scanPending_def)
  ultimately have "card (scanPending data
      (s\<lparr>sc_queue := x22, sc_visited := insert cw (sc_visited s)\<rparr>)) < card (scanPending data s)"
    by (rule psubset_card_mono[rotated])
  then show ?case by (intro mlex_less) simp
next
  case (4 data depth s x21 x22 cw cd entry)
  let ?s0 = "s\<lparr>sc_queue := x22, sc_visited := insert cw (sc_visited s),
                sc_nodes := sc_nodes s @ [mkNode cw entry cd]\<rparr>"
  let ?s' = "scanRelated data depth cw cd (entry_relatedWords entry) ?s0"
  have q: "sc_queue s = (cw, cd) # x22" using 4 by simp
  have nv: "cw \<notin> sc_visited s" using 4 by simp
  obtain new where new: "sc_queue ?s' = sc_queue ?s0 @ new" "fst ` set new \<subseteq> truthyNames data"
    using scanRelated_frame(3)[of data depth cw cd "entry_relatedWords entry" ?s0] by blast
  have v: "sc_visited ?s' = insert cw (sc_visited s)" by (simp add: scanRelated_frame)
  have q': "fst ` set (sc_queue ?s') \<subseteq> truthyNames data \<union> fst ` set (sc_queue s)"
    using new by (auto simp: q)
  have "(truthyNames data \<union> fst ` set (sc_queue ?s')) - insert cw (sc_visited s)
      \<subset> (truthyNames data \<union> fst ` set (sc_queue s)) - sc_visited s"
    by (rule pending_psubset[OF nv _ q']) (simp add: q)
  then have "scanPending data ?s' \<subset> scanPending data s"
    unfolding scanPending_def v .
  moreover have "finite (scanPending data s)" by (simp add: scanPending_def)
  ultimately have "card (scanPending data ?s') < card (scanPending data s)"
    by (rule psubset_card_mono[rotated])
  then show ?case by (intro mlex_less) simp
next
  case (5 data depth s x21 x22 cw cd)
  have q: "sc_queue s = (cw, cd) # x22" using 5 by simp
  have nv: "cw \<notin> sc_visited s" using 5 by simp
  have "(truthyNames data \<union> fst ` set x22) - insert cw (sc_visited s)
      \<subset> (truthyNames data \<union> fst ` set (sc_queue s)) - sc_visited s"
    by (rule pending_psubset[OF nv]) (auto simp: q)
  then have "scanPending data (s\<lparr>sc_queue := x22, sc_visited := insert cw (sc_visited s),
        sc_nodes := sc_nodes s @ [inheritedNode cw cd]\<rparr>)
      \<subset> scanPending data s"
    by (simp add: scanPending_def)
  moreover have "finite (scanPending data s)" by (simp add: scanPending_def)
  ultimately have "card (scanPending data
      (s\<lparr>sc_queue := x22, sc_visited := insert cw (sc_visited s),
         sc_nodes := sc_nodes s @ [inheritedNode cw cd]\<rparr>)) < card (scanPending data s)"
    by (rule psubset_card_mono[rotated])
  then show ?case by (intro mlex_less) simp
qed

declare scanLoop.simps [simp del]

section \<open>Counting search of the stats precomputer\<close>

text \<open>
  \<open>computeGraphSize\<close> of the precompute script (and \<open>getGraphSize\<close>, the same text):
  the state is the visited set and the queue; the result is \<open>visited.size\<close>. For an
  inherited member \<open>entry.relatedWords || []\<close> is the empty list.
\<close>

fun sizeRelated ::
  "EtymologyData \<Rightarrow> int \<Rightarrow> string set \<Rightarrow> int \<Rightarrow> string list \<Rightarrow> (string \<times> int) list
   \<Rightarrow> (string \<times> int) list" where
  "sizeRelated data depth visited currentDepth [] queue = queue"
| "sizeRelated data depth visited currentDepth (relatedWord # rest) queue =
     sizeRelated data depth visited currentDepth rest
       (let normalizedRelated = normalize_word relatedWord in
        if normalizedRelated \<notin> visited \<and> lookup data normalizedRelated \<noteq> Undefined
           \<and> currentDepth < depth
        then queue @ [(normalizedRelated, currentDepth + 1)]
        else queue)"

lemma sizeRelated_frame:
  "\<exists>new. sizeRelated data depth visited cd rels queue = queue @ new
         \<and> fst ` set new \<subseteq> truthyNames data"
proof (induction rels arbitrary: queue)
  case Nil
  then show ?case by simp
next
  case (Cons r rels)
  let ?q1 = "(let nr = normalize_word r in
        if nr \<notin> visited \<and> lookup data nr \<noteq> Undefined \<and> cd < depth
        then queue @ [(nr, cd + 1)] else queue)"
  have "\<exists>n1. ?q1 = queue @ n1 \<and> fst ` set n1 \<subseteq> truthyNames data"
    using lookup_truthy[of data "normalize_word r"] by (auto simp: Let_def)
  then obtain n1 where n1: "?q1 = queue @ n1" "fst ` set n1 \<subseteq> truthyNames data" by blast
  from Cons.IH[of ?q1] obtain n2 where
    n2: "sizeRelated data depth visited cd rels ?q1 = ?q1 @ n2" "fst ` set n2 \<subseteq> truthyNames data"
    by blast
  have "sizeRelated data depth visited cd (r # rels) queue = queue @ (n1 @ n2)"
    using n1 n2 by simp
  moreover have "fst ` set (n1 @ n2) \<subseteq> truthyNames data" using n1 n2 by auto
  ultimately show ?case by blast
qed

function sizeLoop ::
  "EtymologyData \<Rightarrow> int \<Rightarrow> string set \<Rightarrow> (string \<times> int) list \<Rightarrow> string set" where
  "sizeLoop data depth visited queue =
     (case queue of
        [] \<Rightarrow> visited
      | (currentWord, currentDepth) # q \<Rightarrow>
          if currentWord \<in> visited \<or> currentDepth > depth
          then sizeLoop data depth visited q
          else (case lookup data currentWord of
                  Undefined \<Rightarrow> sizeLoop data depth (insert currentWord visited) q
                | EntryObject entry \<Rightarrow>
                    sizeLoop data depth (insert currentWord visited)
                      (sizeRelated data depth (insert currentWord visited) currentDepth
                         (entry_relatedWords entry) q)
                | Inherited \<Rightarrow> sizeLoop data depth (insert currentWord visited) q))"
  by pat_completeness auto
termination
proof (relation "(\<lambda>(data, depth, visited, queue).
                    card ((truthyNames data \<union> fst ` set queue) - visited))
                 <*mlex*> measure (\<lambda>(data, depth, visited, queue). length queue)", goal_cases)
  case 1
  then show ?case by (simp add: wf_mlex)
next
  case (2 data depth visited queue x21 x22 cw cd)
  have q: "queue = (cw, cd) # x22" using 2 by simp
  have "(truthyNames data \<union> fst ` set x22) - visited
      \<subseteq> (truthyNames data \<union> fst ` set queue) - visited"
    by (rule pending_subset) (auto simp: q)
  then have "card ((truthyNames data \<union> fst ` set x22) - visited)
      \<le> card ((truthyNames data \<union> fst ` set queue) - visited)"
    by (intro card_mono) auto
  moreover have "length x22 < length queue" by (simp add: q)
  ultimately show ?case by (intro mlex_leq) simp_all
next
  case (3 data depth visited queue x21 x22 cw cd)
  have q: "queue = (cw, cd) # x22" using 3 by simp
  have nv: "cw \<notin> visited" using 3 by simp
  have "(truthyNames data \<union> fst ` set x22) - insert cw visited
      \<subset> (truthyNames data \<union> fst ` set queue) - visited"
    by (rule pending_psubset[OF nv]) (auto simp: q)
  then have "card ((truthyNames data \<union> fst ` set x22) - insert cw visited)
      < card ((truthyNames data \<union> fst ` set queue) - visited)"
    by (intro psubset_card_mono) auto
  then show ?case by (intro mlex_less) simp
next
  case (4 data depth visited queue x21 x22 cw cd entry)
  have q: "queue = (cw, cd) # x22" using 4 by simp
  have nv: "cw \<notin> visited" using 4 by simp
  obtain new where new: "sizeRelated data depth (insert cw visited) cd (entry_relatedWords entry) x22
       = x22 @ new" "fst ` set new \<subseteq> truthyNames data"
    using sizeRelated_frame by blast
  have q': "fst ` set (x22 @ new) \<subseteq> truthyNames data \<union> fst ` set queue"
    using new(2) by (auto simp: q)
  have "(truthyNames data \<union> fst ` set (x22 @ new)) - insert cw visited
      \<subset> (truthyNames data \<union> fst ` set queue) - visited"
    by (rule pending_psubset[OF nv _ q']) (simp add: q)
  then have "card ((truthyNames data \<union> fst ` set (x22 @ new)) - insert cw visited)
      < card ((truthyNames data \<union> fst ` set queue) - visited)"
    by (intro psubset_card_mono) auto
  then show ?case unfolding new(1) by (intro mlex_less) simp
next
  case (5 data depth visited queue x21 x22 cw cd)
  have q: "queue = (cw, cd) # x22" using 5 by simp
  have nv: "cw \<notin> visited" using 5 by simp
  have "(truthyNames data \<union> fst ` set x22) - insert cw visited
      \<subset> (truthyNames data \<union> fst ` set queue) - visited"
    by (rule pending_psubset[OF nv]) (auto simp: q)
  then have "card ((truthyNames data \<union> fst ` set x22) - insert cw visited)
      < card ((truthyNames data \<union> fst ` set queue) - visited)"
    by (intro psubset_card_mono) auto
  then show ?case by (intro mlex_less) simp
qed

declare sizeLoop.simps [simp del]

definition computeGraphSize :: "string \<Rightarrow> int \<Rightarrow> EtymologyData \<Rightarrow> int" where
  "computeGraphSize w depth data =
     (let normalizedWord = normalize_word w in
      if lookup data normalizedWord = Undefined then 0
      else int (card (sizeLoop data depth {} [(normalizedWord, 0)])))"


section \<open>HubPruner\<close>

text \<open>
  The second half of \<open>getWordGraph\<close>. \<open>childrenByParent\<close> is a \<open>Map\<close> from parent to
  \<open>Set\<close> of children, iterated in insertion order: an association list whose
  entries keep their position. \<open>nodeDepthMap.get(x) || 0\<close> is \<open>depthOrZero\<close>.
  \<open>closurePass\<close> is one run of the \<open>for\<close> loop inside \<open>while (changed)\<close>, carrying
  the set and the flag; \<open>closureLoop\<close> is the \<open>while\<close> loop, whose first pass always
  runs.
\<close>

definition HUB_THRESHOLD :: nat where
  "HUB_THRESHOLD = 80"

type_synonym ChildrenMap = "(string \<times> string set) list"

definition depthOrZero :: "(string \<Rightarrow> int option) \<Rightarrow> string \<Rightarrow> int" where
  "depthOrZero nodeDepthMap w = (case nodeDepthMap w of None \<Rightarrow> 0 | Some d \<Rightarrow> d)"

fun addChild :: "string \<Rightarrow> string \<Rightarrow> ChildrenMap \<Rightarrow> ChildrenMap" where
  "addChild parent child [] = [(parent, {child})]"
| "addChild parent child ((k, children) # rest) =
     (if k = parent then (k, insert child children) # rest
      else (k, children) # addChild parent child rest)"

fun buildChildren :: "(string \<Rightarrow> int option) \<Rightarrow> GraphEdge list \<Rightarrow> ChildrenMap \<Rightarrow> ChildrenMap" where
  "buildChildren nodeDepthMap [] childrenByParent = childrenByParent"
| "buildChildren nodeDepthMap (edge # rest) childrenByParent =
     (let sourceDepth = depthOrZero nodeDepthMap (edge_from edge);
          targetDepth = depthOrZero nodeDepthMap (edge_to edge)
      in buildChildren nodeDepthMap rest
           (if sourceDepth < targetDepth
            then addChild (edge_from edge) (edge_to edge) childrenByParent
            else if targetDepth < sourceDepth
            then addChild (edge_to edge) (edge_from edge) childrenByParent
            else childrenByParent))"

fun markHubChildren :: "(string \<Rightarrow> int option) \<Rightarrow> ChildrenMap \<Rightarrow> string set \<Rightarrow> string set" where
  "markHubChildren nodeDepthMap [] nodesToRemove = nodesToRemove"
| "markHubChildren nodeDepthMap ((nodeId, children) # rest) nodesToRemove =
     markHubChildren nodeDepthMap rest
       (case nodeDepthMap nodeId of
          None \<Rightarrow> nodesToRemove
        | Some nodeDepth \<Rightarrow>
            if nodeDepth \<ge> 1 \<and> card children \<ge> HUB_THRESHOLD
            then nodesToRemove \<union> children
            else nodesToRemove)"

fun closurePass :: "ChildrenMap \<Rightarrow> string set \<times> bool \<Rightarrow> string set \<times> bool" where
  "closurePass [] (nodesToRemove, changed) = (nodesToRemove, changed)"
| "closurePass ((parentId, children) # rest) (nodesToRemove, changed) =
     (if parentId \<in> nodesToRemove
      then closurePass rest (nodesToRemove \<union> children, changed \<or> \<not> children \<subseteq> nodesToRemove)
      else closurePass rest (nodesToRemove, changed))"

text \<open>
  A pass that sets \<open>changed\<close> settles at least one entry of the map for good (its
  children are all marked from then on), so the loop runs at most once per entry
  and once more.
\<close>

lemma closurePass_mono: "R \<subseteq> fst (closurePass cbp (R, ch))"
proof (induction cbp arbitrary: R ch)
  case Nil
  then show ?case by simp
next
  case (Cons a cbp)
  obtain p cs where a: "a = (p, cs)" by (cases a)
  show ?case using Cons.IH[of "R \<union> cs" "ch \<or> \<not> cs \<subseteq> R"] Cons.IH[of R ch]
    by (auto simp: a)
qed

lemma closurePass_changed:
  "snd (closurePass cbp (R, ch)) \<Longrightarrow>
   ch \<or> (\<exists>(p, cs) \<in> set cbp. \<not> cs \<subseteq> R \<and> cs \<subseteq> fst (closurePass cbp (R, ch)))"
proof (induction cbp arbitrary: R ch)
  case Nil
  then show ?case by simp
next
  case (Cons a cbp)
  obtain p cs where a: "a = (p, cs)" by (cases a)
  show ?case
  proof (cases "p \<in> R")
    case False
    then show ?thesis using Cons.IH[of R ch] Cons.prems by (auto simp: a)
  next
    case True
    let ?R' = "R \<union> cs"
    have eq: "closurePass (a # cbp) (R, ch) = closurePass cbp (?R', ch \<or> \<not> cs \<subseteq> R)"
      using True by (simp add: a)
    from Cons.IH[of ?R' "ch \<or> \<not> cs \<subseteq> R"] Cons.prems
    consider "ch" | "\<not> cs \<subseteq> R"
      | "\<exists>(p', cs') \<in> set cbp. \<not> cs' \<subseteq> ?R' \<and> cs' \<subseteq> fst (closurePass cbp (?R', ch \<or> \<not> cs \<subseteq> R))"
      unfolding eq by blast
    then show ?thesis
    proof cases
      case 1
      then show ?thesis by simp
    next
      case 2
      have "cs \<subseteq> fst (closurePass cbp (?R', ch \<or> \<not> cs \<subseteq> R))"
        using closurePass_mono[of ?R' cbp "ch \<or> \<not> cs \<subseteq> R"] by blast
      then show ?thesis using 2 unfolding eq by (auto simp: a)
    next
      case 3
      then show ?thesis unfolding eq by fastforce
    qed
  qed
qed

definition unsettled :: "ChildrenMap \<Rightarrow> string set \<Rightarrow> nat" where
  "unsettled cbp R = length (filter (\<lambda>(p, cs). \<not> cs \<subseteq> R) cbp)"

lemma length_filter_strict:
  "(\<And>x. x \<in> set xs \<Longrightarrow> P x \<Longrightarrow> Q x) \<Longrightarrow> \<exists>x \<in> set xs. Q x \<and> \<not> P x \<Longrightarrow>
   length (filter P xs) < length (filter Q xs)"
proof (induction xs)
  case Nil
  then show ?case by simp
next
  case (Cons x xs)
  have le: "length (filter P xs) \<le> length (filter Q xs)"
  proof -
    have "filter P xs = filter P (filter Q xs)"
      using Cons.prems(1) by (auto simp: filter_filter intro!: filter_cong)
    then show ?thesis by (metis length_filter_le)
  qed
  show ?case
  proof (cases "Q x \<and> \<not> P x")
    case True
    then show ?thesis using le by simp
  next
    case False
    then have "\<exists>y \<in> set xs. Q y \<and> \<not> P y" using Cons.prems(2) by auto
    then have "length (filter P xs) < length (filter Q xs)"
      using Cons.IH Cons.prems(1) by simp
    then show ?thesis using Cons.prems(1)[of x] by auto
  qed
qed

lemma closurePass_unsettled:
  assumes "snd (closurePass cbp (R, False))"
  shows "unsettled cbp (fst (closurePass cbp (R, False))) < unsettled cbp R"
proof -
  let ?R' = "fst (closurePass cbp (R, False))"
  have mono: "R \<subseteq> ?R'" by (rule closurePass_mono)
  from closurePass_changed[OF assms]
  obtain p cs where pc: "(p, cs) \<in> set cbp" "\<not> cs \<subseteq> R" "cs \<subseteq> ?R'" by auto
  show ?thesis unfolding unsettled_def
  proof (rule length_filter_strict)
    fix x assume "x \<in> set cbp" "case x of (p, cs) \<Rightarrow> \<not> cs \<subseteq> ?R'"
    then show "case x of (p, cs) \<Rightarrow> \<not> cs \<subseteq> R" using mono by auto
  next
    show "\<exists>x\<in>set cbp. (case x of (p, cs) \<Rightarrow> \<not> cs \<subseteq> R) \<and>
            \<not> (case x of (p, cs) \<Rightarrow> \<not> cs \<subseteq> ?R')"
      using pc by (intro bexI[of _ "(p, cs)"]) auto
  qed
qed

function closureLoop :: "ChildrenMap \<Rightarrow> string set \<Rightarrow> string set" where
  "closureLoop childrenByParent nodesToRemove =
     (if snd (closurePass childrenByParent (nodesToRemove, False))
      then closureLoop childrenByParent (fst (closurePass childrenByParent (nodesToRemove, False)))
      else fst (closurePass childrenByParent (nodesToRemove, False)))"
  by pat_completeness auto
termination
  by (relation "measure (\<lambda>(cbp, R). unsettled cbp R)") (auto intro: closurePass_unsettled)

declare closureLoop.simps [simp del]

definition nodesToRemove :: "(string \<Rightarrow> int option) \<Rightarrow> GraphEdge list \<Rightarrow> string set" where
  "nodesToRemove nodeDepthMap es =
     (let childrenByParent = buildChildren nodeDepthMap es []
      in closureLoop childrenByParent (markHubChildren nodeDepthMap childrenByParent {}))"

definition pruneGraph :: "(string \<Rightarrow> int option) \<Rightarrow> GraphNode list \<Rightarrow> GraphEdge list \<Rightarrow> Graph" where
  "pruneGraph nodeDepthMap ns es =
     (let removed = nodesToRemove nodeDepthMap es
      in \<lparr>nodes = filter (\<lambda>node. node_id node \<notin> removed) ns,
          edges = filter (\<lambda>edge. edge_from edge \<notin> removed \<and> edge_to edge \<notin> removed) es\<rparr>)"

subsection \<open>The parent relation in the words of the specification\<close>

text \<open>
  The endpoint of an edge with the strictly smaller depth is the parent, the other
  one the child; a missing depth counts as 0. \<open>childrenOf\<close> is the set of distinct
  direct children of a node, \<open>childRel\<close> the parent-to-child relation. The code's
  \<open>childrenByParent\<close> map is compared with them below.
\<close>

definition childrenOf :: "(string \<Rightarrow> int option) \<Rightarrow> GraphEdge list \<Rightarrow> string \<Rightarrow> string set" where
  "childrenOf nodeDepthMap es p =
     set (concat (map (\<lambda>e.
        (if edge_from e = p \<and> depthOrZero nodeDepthMap (edge_from e) < depthOrZero nodeDepthMap (edge_to e)
         then [edge_to e] else [])
        @ (if edge_to e = p \<and> depthOrZero nodeDepthMap (edge_to e) < depthOrZero nodeDepthMap (edge_from e)
           then [edge_from e] else [])) es))"

definition childRel :: "(string \<Rightarrow> int option) \<Rightarrow> GraphEdge list \<Rightarrow> (string \<times> string) set" where
  "childRel nodeDepthMap es = {(p, c). c \<in> childrenOf nodeDepthMap es p}"

section \<open>The three \<open>getWordGraph\<close> functions\<close>

text \<open>
  \<open>getWordGraph\<close>: \<open>MemStorage.getWordGraph\<close>, enqueue-time marking (\<open>bfsGraph\<close> is the
  state when the queue is empty), then pruning with the depth map of the search; an
  exception of the search is the result. \<open>getWordGraph_plain\<close>: dequeue-time marking,
  no pruning. \<open>getWordGraph_lambda\<close>: dequeue-time marking, then pruning with a depth
  map rebuilt from the node list. Each starts with \<open>if (!data[normalizedWord])\<close>.
\<close>

definition bfsGraph :: "EtymologyData \<Rightarrow> string \<Rightarrow> int \<Rightarrow> js_error + BfsState" where
  "bfsGraph data normalizedWord depth =
     bfsLoop data depth
       \<lparr>st_nodes = [], st_edges = [], st_visited = {normalizedWord},
        st_nodeDepthMap = [normalizedWord \<mapsto> 0],
        st_queue = [(normalizedWord, 0)]\<rparr>"

definition getWordGraph :: "EtymologyData \<Rightarrow> string \<Rightarrow> int \<Rightarrow> js_error + Graph" where
  "getWordGraph data w depth =
     (let normalizedWord = normalize_word w in
      if lookup data normalizedWord = Undefined then Inr \<lparr>nodes = [], edges = []\<rparr>
      else (case bfsGraph data normalizedWord depth of
              Inl err \<Rightarrow> Inl err
            | Inr s \<Rightarrow> Inr (pruneGraph (st_nodeDepthMap s) (st_nodes s) (st_edges s))))"

definition scanGraph :: "EtymologyData \<Rightarrow> string \<Rightarrow> int \<Rightarrow> ScanState" where
  "scanGraph data normalizedWord depth =
     scanLoop data depth
       \<lparr>sc_nodes = [], sc_edges = [], sc_visited = {}, sc_queue = [(normalizedWord, 0)]\<rparr>"

definition getWordGraph_plain :: "EtymologyData \<Rightarrow> string \<Rightarrow> int \<Rightarrow> Graph" where
  "getWordGraph_plain data w depth =
     (let normalizedWord = normalize_word w in
      if lookup data normalizedWord = Undefined then \<lparr>nodes = [], edges = []\<rparr>
      else let s = scanGraph data normalizedWord depth
           in \<lparr>nodes = sc_nodes s, edges = sc_edges s\<rparr>)"

fun depthMapOf :: "GraphNode list \<Rightarrow> (string \<Rightarrow> int option) \<Rightarrow> (string \<Rightarrow> int option)" where
  "depthMapOf [] nodeDepthMap = nodeDepthMap"
| "depthMapOf (node # rest) nodeDepthMap =
     depthMapOf rest (nodeDepthMap(node_id node \<mapsto> node_depth node))"

definition getWordGraph_lambda :: "EtymologyData \<Rightarrow> string \<Rightarrow> int \<Rightarrow> Graph" where
  "getWordGraph_lambda data w depth =
     (let normalizedWord = normalize_word w in
      if lookup data normalizedWord = Undefined then \<lparr>nodes = [], edges = []\<rparr>
      else let s = scanGraph data normalizedWord depth
           in pruneGraph (depthMapOf (sc_nodes s) Map.empty) (sc_nodes s) (sc_edges s))"

section \<open>Hop distance in the words of the specification\<close>

text \<open>
  A hop leads from a key of the index to the normalisation of one of its related
  words, when that normalisation is a key too. \<open>minHops data start w k\<close>: \<open>k\<close> is the
  minimum number of hops from \<open>start\<close> to \<open>w\<close>. \<open>withinHops data start depth\<close>: the
  words at most \<open>depth\<close> hops away. \<open>emitted\<close> reads the id and depth of each node.
\<close>

definition hops :: "EtymologyData \<Rightarrow> (string \<times> string) set" where
  "hops data = {(u, v). \<exists>e. ownEntry data u = Some e
                   \<and> v \<in> normalize_word ` set (entry_relatedWords e) \<and> ownEntry data v \<noteq> None}"




text \<open>The unordered pair an edge stands for.\<close>

definition upair :: "GraphEdge \<Rightarrow> string set" where
  "upair e = {edge_from e, edge_to e}"


section \<open>StatsPrecomputer\<close>

text \<open>
  The pure part of \<open>main\<close> in the precompute script: one statistics record per key
  (the loop runs over \<open>Object.keys(data)\<close>, and for an own key the read \<open>data[word]\<close>
  gives the own entry), the filter, the stable sort by \<open>graphSize\<close>, and the running
  sum, whose final value is \<open>totalWeight\<close>.
\<close>

record WordStats =
  ws_word :: string
  ws_numConnections :: int
  ws_graphSize :: int

definition MAX_NODES :: int where
  "MAX_NODES = 850"

definition collectStats :: "EtymologyData \<Rightarrow> WordStats list" where
  "collectStats data =
     List.map_filter
       (\<lambda>w. case ownEntry data w of
               None \<Rightarrow> None
             | Some entry \<Rightarrow>
                 Some \<lparr>ws_word = w,
                       ws_numConnections = int (length (entry_relatedWords entry)),
                       ws_graphSize = computeGraphSize w 3 data\<rparr>)
       (keys data)"

fun withCumulative :: "int \<Rightarrow> WordStats list \<Rightarrow> int \<times> SamplingEntry list" where
  "withCumulative cumulative [] = (cumulative, [])"
| "withCumulative cumulative (s # rest) =
     (let cumulative' = cumulative + ws_numConnections s;
          (total, entries) = withCumulative cumulative' rest
      in (total,
          \<lparr>word = ws_word s, numConnections = ws_numConnections s,
           graphSize = ws_graphSize s, cumulativeWeight = cumulative'\<rparr> # entries))"

definition precompute :: "EtymologyData \<Rightarrow> SamplingTable" where
  "precompute data =
     (let stats = collectStats data;
          filtered = filter (\<lambda>s. ws_graphSize s > 1 \<and> ws_numConnections s > 0
                                  \<and> ws_graphSize s \<le> MAX_NODES) stats;
          sorted_stats = sort_key ws_graphSize filtered;
          (cumulative, wordsWithCumulative) = withCumulative 0 sorted_stats
      in \<lparr>totalWeight = cumulative, words = wordsWithCumulative\<rparr>)"

section \<open>Example data\<close>

text \<open>Scenario A of the specification.\<close>

definition scenarioA :: EtymologyData where
  "scenarioA =
     [(''a'', \<lparr>entry_definition = ''A'', entry_relatedWords = [''b'', ''c'']\<rparr>),
      (''b'', \<lparr>entry_definition = ''B'', entry_relatedWords = [''a'']\<rparr>),
      (''c'', \<lparr>entry_definition = ''C'', entry_relatedWords = [''a'']\<rparr>)]"

text \<open>
  Scenario B of the specification: the root \<open>r\<close>, its child \<open>h\<close>, and 80 children of \<open>h\<close>
  with empty related lists; and the depths, nodes and edges of that graph written
  out by hand.
\<close>

definition hubChildren :: "string list" where
  "hubChildren =
     [''x00'', ''x01'', ''x02'', ''x03'', ''x04'', ''x05'', ''x06'', ''x07'',
      ''x08'', ''x09'', ''x10'', ''x11'', ''x12'', ''x13'', ''x14'', ''x15'',
      ''x16'', ''x17'', ''x18'', ''x19'', ''x20'', ''x21'', ''x22'', ''x23'',
      ''x24'', ''x25'', ''x26'', ''x27'', ''x28'', ''x29'', ''x30'', ''x31'',
      ''x32'', ''x33'', ''x34'', ''x35'', ''x36'', ''x37'', ''x38'', ''x39'',
      ''x40'', ''x41'', ''x42'', ''x43'', ''x44'', ''x45'', ''x46'', ''x47'',
      ''x48'', ''x49'', ''x50'', ''x51'', ''x52'', ''x53'', ''x54'', ''x55'',
      ''x56'', ''x57'', ''x58'', ''x59'', ''x60'', ''x61'', ''x62'', ''x63'',
      ''x64'', ''x65'', ''x66'', ''x67'', ''x68'', ''x69'', ''x70'', ''x71'',
      ''x72'', ''x73'', ''x74'', ''x75'', ''x76'', ''x77'', ''x78'', ''x79'']"


definition depthsB :: "string \<Rightarrow> int option" where
  "depthsB = (\<lambda>w. if w = ''r'' then Some 0 else if w = ''h'' then Some 1 else Some 2)"

definition nodesB :: "GraphNode list" where
  "nodesB = map (\<lambda>(w, d). \<lparr>node_id = w, node_word = w, node_definition = Some [],
                             node_depth = d, node_relatedWords = Some []\<rparr>)
              ((''r'', 0) # (''h'', 1) # map (\<lambda>x. (x, 2)) hubChildren)"

definition edgesB :: "GraphEdge list" where
  "edgesB = \<lparr>edge_from = ''r'', edge_to = ''h''\<rparr>
            # map (\<lambda>x. \<lparr>edge_from = ''h'', edge_to = x\<rparr>) hubChildren"


definition twice :: EtymologyData where
  "twice =
     [(''a'', \<lparr>entry_definition = ''A'', entry_relatedWords = [''b'', ''b'']\<rparr>),
      (''b'', \<lparr>entry_definition = ''B'', entry_relatedWords = []\<rparr>)]"

text \<open>
  An index with one word and no related words; one whose first word has no related
  words and whose second has one; and one whose word lists the inherited name
  \<open>constructor\<close>.
\<close>

definition lonely :: EtymologyData where
  "lonely = [(''a'', \<lparr>entry_definition = ''A'', entry_relatedWords = []\<rparr>)]"

definition firstUnconnected :: EtymologyData where
  "firstUnconnected =
     [(''a'', \<lparr>entry_definition = ''A'', entry_relatedWords = []\<rparr>),
      (''b'', \<lparr>entry_definition = ''B'', entry_relatedWords = [''a'']\<rparr>)]"


section \<open>Rounding to a double is monotone\<close>

text \<open>
  A real at most (at least) a multiple of a power of two that is itself a double is
  rounded to a double at most (at least) that multiple; in particular rounding never
  crosses an integer below \<open>2^53\<close>.
\<close>

lemma roundHalfEven_le: "y \<le> real_of_int m \<Longrightarrow> roundHalfEven y \<le> m"
proof -
  assume y: "y \<le> real_of_int m"
  then have f: "\<lfloor>y\<rfloor> \<le> m" by (simp add: floor_le_iff)
  show ?thesis
  proof (cases "\<lfloor>y\<rfloor> = m")
    case True
    then have "y - real_of_int \<lfloor>y\<rfloor> \<le> 0" using y by simp
    then show ?thesis using True by (simp add: roundHalfEven_def)
  next
    case False
    then have "\<lfloor>y\<rfloor> + 1 \<le> m" using f by simp
    then show ?thesis using f by (simp add: roundHalfEven_def)
  qed
qed

lemma roundHalfEven_ge: "real_of_int m \<le> y \<Longrightarrow> m \<le> roundHalfEven y"
proof -
  assume "real_of_int m \<le> y"
  then have "m \<le> \<lfloor>y\<rfloor>" by (simp add: le_floor_iff)
  then show ?thesis by (simp add: roundHalfEven_def)
qed

lemma ulp_pos: "0 < ulp x"
  by (simp add: ulp_def)

lemma binaryExponent_le:
  assumes "0 < x" and "x < 2 powr real_of_int (j + 53)" and "- 1074 \<le> j"
  shows "binaryExponent x - 52 \<le> j"
proof -
  have "log 2 x < real_of_int (j + 53)"
    using assms(1,2) by (simp add: log_less_iff)
  then have "\<lfloor>log 2 x\<rfloor> < j + 53" by (simp add: floor_less_iff)
  then show ?thesis using assms(1,3) by (simp add: binaryExponent_def)
qed

lemma grid_multiple:
  assumes "k \<le> j"
  shows "real_of_int m * 2 powr real_of_int j / 2 powr real_of_int k
         = real_of_int (m * 2 ^ nat (j - k))"
proof -
  have "2 powr real_of_int j / 2 powr real_of_int k = (2::real) powr real_of_int (j - k)"
    by (simp add: powr_diff)
  also have "real_of_int (j - k) = real (nat (j - k))"
    using assms by simp
  also have "(2::real) powr real (nat (j - k)) = 2 ^ nat (j - k)"
    by (simp add: powr_realpow)
  finally have e: "2 powr real_of_int j / 2 powr real_of_int k = (2::real) ^ nat (j - k)" .
  have "real_of_int m * 2 powr real_of_int j / 2 powr real_of_int k
      = real_of_int m * (2 powr real_of_int j / 2 powr real_of_int k)" by simp
  also have "\<dots> = real_of_int m * 2 ^ nat (j - k)" unfolding e ..
  finally show ?thesis by simp
qed

lemma roundDouble_le:
  assumes "0 \<le> x" and "x \<le> real_of_int m * 2 powr real_of_int j"
    and "x < 2 powr real_of_int (j + 53)" and "- 1074 \<le> j"
  shows "roundDouble x \<le> real_of_int m * 2 powr real_of_int j"
proof (cases "x = 0")
  case True
  then show ?thesis using assms(2) by (simp add: roundDouble_def)
next
  case False
  then have pos: "0 < x" using assms(1) by simp
  define k where "k = binaryExponent x - 52"
  have kj: "k \<le> j" unfolding k_def by (rule binaryExponent_le[OF pos assms(3,4)])
  have u: "ulp x = 2 powr real_of_int k" by (simp add: ulp_def k_def)
  have "x / ulp x \<le> real_of_int m * 2 powr real_of_int j / ulp x"
    using assms(2) ulp_pos[of x] by (simp add: divide_right_mono)
  also have "\<dots> = real_of_int (m * 2 ^ nat (j - k))"
    unfolding u by (rule grid_multiple[OF kj])
  finally have "roundHalfEven (x / ulp x) \<le> m * 2 ^ nat (j - k)"
    by (rule roundHalfEven_le)
  then have "real_of_int (roundHalfEven (x / ulp x)) \<le> real_of_int (m * 2 ^ nat (j - k))"
    by linarith
  then have "real_of_int (roundHalfEven (x / ulp x)) * ulp x
      \<le> real_of_int (m * 2 ^ nat (j - k)) * ulp x"
    using ulp_pos[of x] by (intro mult_right_mono) simp_all
  also have "real_of_int (m * 2 ^ nat (j - k)) * ulp x = real_of_int m * 2 powr real_of_int j"
    unfolding grid_multiple[OF kj, symmetric] u by simp
  finally show ?thesis using pos by (simp add: roundDouble_def)
qed

lemma roundDouble_ge:
  assumes "0 \<le> x" and "real_of_int m * 2 powr real_of_int j \<le> x"
    and "x < 2 powr real_of_int (j + 53)" and "- 1074 \<le> j"
  shows "real_of_int m * 2 powr real_of_int j \<le> roundDouble x"
proof (cases "x = 0")
  case True
  then show ?thesis using assms(2) by (simp add: roundDouble_def)
next
  case False
  then have pos: "0 < x" using assms(1) by simp
  define k where "k = binaryExponent x - 52"
  have kj: "k \<le> j" unfolding k_def by (rule binaryExponent_le[OF pos assms(3,4)])
  have u: "ulp x = 2 powr real_of_int k" by (simp add: ulp_def k_def)
  have "real_of_int m * 2 powr real_of_int j / ulp x \<le> x / ulp x"
    using assms(2) ulp_pos[of x] by (simp add: divide_right_mono)
  then have "real_of_int (m * 2 ^ nat (j - k)) \<le> x / ulp x"
    unfolding u grid_multiple[OF kj] .
  then have "m * 2 ^ nat (j - k) \<le> roundHalfEven (x / ulp x)"
    by (rule roundHalfEven_ge)
  then have "real_of_int (m * 2 ^ nat (j - k)) \<le> real_of_int (roundHalfEven (x / ulp x))"
    by linarith
  then have le: "real_of_int (m * 2 ^ nat (j - k)) * ulp x
      \<le> real_of_int (roundHalfEven (x / ulp x)) * ulp x"
    using ulp_pos[of x] by (intro mult_right_mono) simp_all
  have "real_of_int m * 2 powr real_of_int j = real_of_int (m * 2 ^ nat (j - k)) * ulp x"
    unfolding grid_multiple[OF kj, symmetric] u by simp
  also note le
  finally show ?thesis using pos by (simp add: roundDouble_def)
qed

lemma roundDouble_le_int:
  assumes "0 \<le> x" and "x \<le> real_of_int m" and "m < 2 ^ 53"
  shows "roundDouble x \<le> real_of_int m"
proof -
  have "x < 2 powr real_of_int (0 + 53)"
  proof -
    have "real_of_int m < real_of_int (2 ^ 53)" using assms(3) by (simp only: of_int_less_iff)
    then have "x < 2 ^ 53" using assms(2) by simp
    then show ?thesis by (simp add: powr_realpow[symmetric])
  qed
  from roundDouble_le[of x m 0, OF assms(1) _ this] assms(2) show ?thesis by simp
qed

lemma roundDouble_ge_int:
  assumes "0 \<le> x" and "real_of_int m \<le> x" and "x < 2 ^ 53"
  shows "real_of_int m \<le> roundDouble x"
proof -
  have "x < 2 powr real_of_int (0 + 53)"
    using assms(3) by (simp add: powr_realpow[symmetric])
  from roundDouble_ge[of x m 0, OF assms(1) _ this] assms(2) show ?thesis by simp
qed

lemma roundDouble_nonneg: "0 \<le> x \<Longrightarrow> 0 \<le> roundDouble x"
  using roundDouble_ge_int[of x 0] roundDouble_ge[of x 0 0]
  by (cases "x = 0") (auto simp: roundDouble_def sgn_if roundHalfEven_ge ulp_pos less_imp_le)

text \<open>
  A tie: three times the double nearest to 2/3 is 2 + 2^-52, half way between 2 and
  the next double, and is rounded to 2.
\<close>

lemma roundDouble_tie:
  "roundDouble (9007199254740993 / 4503599627370496) = 2"
proof -
  let ?x = "9007199254740993 / 4503599627370496 :: real"
  have "1 \<le> log 2 ?x" by (simp add: le_log_iff)
  moreover have "log 2 ?x < 2" by (simp add: log_less_iff)
  ultimately have "\<lfloor>log 2 ?x\<rfloor> = 1" by (simp add: floor_eq_iff)
  then have e: "binaryExponent ?x = 1" by (simp add: binaryExponent_def)
  have u: "ulp ?x = 1 / 2251799813685248"
    unfolding ulp_def e by (simp add: powr_neg_numeral)
  have d: "\<bar>?x\<bar> / ulp ?x = 9007199254740993 / 2" unfolding u by simp
  have r: "roundHalfEven (9007199254740993 / 2) = 4503599627370496"
    by (simp add: roundHalfEven_def)
  show ?thesis unfolding roundDouble_def d unfolding r u by simp
qed

section \<open>The binary search stays in bounds\<close>

lemma binarySearch_in_bounds:
  "right < length ws \<Longrightarrow> left \<le> right \<Longrightarrow>
   \<exists>i. binarySearch ws random left right = Inr i \<and> left \<le> i \<and> i \<le> right"
proof (induction ws random left right rule: binarySearch.induct)
  case (1 ws random left right)
  show ?case
  proof (cases "left < right")
    case False
    with "1.prems" show ?thesis by (subst binarySearch.simps) simp
  next
    case True
    let ?mid = "(left + right) div 2"
    have mid: "left \<le> ?mid" "?mid < right" using True by auto
    then have at: "entryAt ws ?mid = Some (ws ! ?mid)"
      using "1.prems" by (simp add: entryAt_def)
    show ?thesis
    proof (cases "real_of_int (cumulativeWeight (ws ! ?mid)) < random")
      case lt: True
      have "\<exists>i. binarySearch ws random (?mid + 1) right = Inr i \<and> ?mid + 1 \<le> i \<and> i \<le> right"
        using "1.IH"(1)[OF True at lt] "1.prems" mid by simp
      then show ?thesis
        using True at lt mid by (subst binarySearch.simps) auto
    next
      case ge: False
      have "\<exists>i. binarySearch ws random left ?mid = Inr i \<and> left \<le> i \<and> i \<le> ?mid"
        using "1.IH"(2)[OF True at ge] "1.prems" mid by simp
      then show ?thesis
        using True at ge mid by (subst binarySearch.simps) auto
    qed
  qed
qed

text \<open>
  C10. For every table with at least one entry and every random value, whatever the
  entries hold (unsorted, zero or negative weights), the binary search returns: it
  is a total function whose recursion decreases \<open>right - left\<close>, it never reads the
  array out of range (no \<open>TypeError\<close>), and the index it returns lies in
  \<open>[0, words.length - 1]\<close>, so that \<open>words[left].word\<close> is the word of an entry.
\<close>

theorem binarySearch_safe:
  "ws \<noteq> [] \<Longrightarrow>
   \<exists>i. binarySearch ws random 0 (length ws - 1) = Inr i \<and> i \<le> length ws - 1 \<and> i < length ws
       \<and> sampleAt ws random = Inr (word (ws ! i))"
proof -
  assume ne: "ws \<noteq> []"
  then have "length ws - 1 < length ws" by (cases ws) auto
  from binarySearch_in_bounds[OF this, of 0 random]
  obtain i where i: "binarySearch ws random 0 (length ws - 1) = Inr i" "i \<le> length ws - 1"
    by auto
  then have "i < length ws" using ne by (cases ws) auto
  then show ?thesis using i by (auto simp: sampleAt_def entryAt_def)
qed

text \<open>Scenario D of the specification, and a table whose total exceeds its last entry.\<close>

definition scenarioD :: "SamplingEntry list" where
  "scenarioD =
     [\<lparr>word = ''a'', numConnections = 1, graphSize = 2, cumulativeWeight = 1\<rparr>,
      \<lparr>word = ''b'', numConnections = 3, graphSize = 2, cumulativeWeight = 4\<rparr>]"

theorem binarySearch_safe_witness:
  "scenarioD \<noteq> [] \<and>
   (\<exists>i. binarySearch scenarioD 2 0 (length scenarioD - 1) = Inr i \<and> i \<le> length scenarioD - 1
        \<and> i < length scenarioD \<and> sampleAt scenarioD 2 = Inr (word (scenarioD ! i)))"
proof -
  have ne: "scenarioD \<noteq> []" by (simp add: scenarioD_def)
  show ?thesis using ne binarySearch_safe[OF ne, of 2] by simp
qed

definition tableD :: "SamplingTable" where
  "tableD = \<lparr>totalWeight = 4, words = scenarioD\<rparr>"

definition tableShort :: "SamplingTable" where
  "tableShort = \<lparr>totalWeight = 4,
     words = [\<lparr>word = ''a'', numConnections = 1, graphSize = 2, cumulativeWeight = 1\<rparr>]\<rparr>"

definition tableTie :: "SamplingTable" where
  "tableTie = \<lparr>totalWeight = 3,
     words = [\<lparr>word = ''a'', numConnections = 2, graphSize = 2, cumulativeWeight = 2\<rparr>,
              \<lparr>word = ''b'', numConnections = 1, graphSize = 2, cumulativeWeight = 3\<rparr>]\<rparr>"

section \<open>The binary search finds the least index at or above the target\<close>

lemma binarySearch_least:
  "sorted (map cumulativeWeight ws) \<Longrightarrow> right < length ws \<Longrightarrow> left \<le> right \<Longrightarrow>
   (\<forall>j<left. real_of_int (cumulativeWeight (ws ! j)) < random) \<Longrightarrow>
   random \<le> real_of_int (cumulativeWeight (ws ! right)) \<Longrightarrow>
   \<exists>i. binarySearch ws random left right = Inr i \<and> i \<le> right
       \<and> random \<le> real_of_int (cumulativeWeight (ws ! i))
       \<and> (\<forall>j<i. real_of_int (cumulativeWeight (ws ! j)) < random)"
proof (induction ws random left right rule: binarySearch.induct)
  case (1 ws random left right)
  show ?case
  proof (cases "left < right")
    case False
    with "1.prems" have "left = right" by simp
    with "1.prems" show ?thesis by (subst binarySearch.simps) simp
  next
    case True
    let ?mid = "(left + right) div 2"
    have mid: "left \<le> ?mid" "?mid < right" using True by auto
    then have at: "entryAt ws ?mid = Some (ws ! ?mid)"
      using "1.prems" by (simp add: entryAt_def)
    show ?thesis
    proof (cases "real_of_int (cumulativeWeight (ws ! ?mid)) < random")
      case lt: True
      have below: "\<forall>j<?mid + 1. real_of_int (cumulativeWeight (ws ! j)) < random"
      proof (intro allI impI)
        fix j assume j: "j < ?mid + 1"
        then have "j \<le> ?mid" by simp
        moreover have "?mid < length (map cumulativeWeight ws)" using mid "1.prems" by simp
        ultimately have "map cumulativeWeight ws ! j \<le> map cumulativeWeight ws ! ?mid"
          using "1.prems"(1) by (rule_tac sorted_nth_mono)
        then have "cumulativeWeight (ws ! j) \<le> cumulativeWeight (ws ! ?mid)"
          using j mid "1.prems" by simp
        then show "real_of_int (cumulativeWeight (ws ! j)) < random" using lt by linarith
      qed
      have "\<exists>i. binarySearch ws random (?mid + 1) right = Inr i \<and> i \<le> right
              \<and> random \<le> real_of_int (cumulativeWeight (ws ! i))
              \<and> (\<forall>j<i. real_of_int (cumulativeWeight (ws ! j)) < random)"
        using "1.IH"(1)[OF True at lt "1.prems"(1,2) _ below "1.prems"(5)] mid by simp
      then show ?thesis
        using True at lt by (subst binarySearch.simps) simp
    next
      case ge: False
      have "\<exists>i. binarySearch ws random left ?mid = Inr i \<and> i \<le> ?mid
              \<and> random \<le> real_of_int (cumulativeWeight (ws ! i))
              \<and> (\<forall>j<i. real_of_int (cumulativeWeight (ws ! j)) < random)"
        using "1.IH"(2)[OF True at ge "1.prems"(1) _ _ "1.prems"(4)] ge mid "1.prems"(2) by simp
      then show ?thesis
        using True at ge mid by (subst binarySearch.simps) auto
    qed
  qed
qed

lemma sampleAt_least:
  assumes "ws \<noteq> []" and "sorted (map cumulativeWeight ws)"
    and "random \<le> real_of_int (cumulativeWeight (last ws))"
  shows "\<exists>i<length ws. sampleAt ws random = Inr (word (ws ! i))
           \<and> random \<le> real_of_int (cumulativeWeight (ws ! i))
           \<and> (\<forall>j<i. real_of_int (cumulativeWeight (ws ! j)) < random)"
proof -
  have r: "length ws - 1 < length ws" using assms(1) by (cases ws) auto
  have l: "last ws = ws ! (length ws - 1)" using assms(1) by (rule last_conv_nth)
  from binarySearch_least[OF assms(2) r, of 0 random] assms(3) l
  obtain i where i: "binarySearch ws random 0 (length ws - 1) = Inr i" "i \<le> length ws - 1"
    "random \<le> real_of_int (cumulativeWeight (ws ! i))"
    "\<forall>j<i. real_of_int (cumulativeWeight (ws ! j)) < random"
    by auto
  have "i < length ws" using i(2) r by linarith
  then show ?thesis using i by (auto simp: sampleAt_def entryAt_def)
qed

lemma sampleAt_scenarioD:
  "random \<le> 1 \<Longrightarrow> sampleAt scenarioD random = Inr ''a''"
  "1 < random \<Longrightarrow> sampleAt scenarioD random = Inr ''b''"
  by (simp_all add: sampleAt_def scenarioD_def binarySearch.simps entryAt_def)

lemma sample_tableD:
  "sample tableD (roundDouble (1/10)) = Inr ''a''" "sample tableD (1/2) = Inr ''b''"
  "sample tableD (roundDouble (95/100)) = Inr ''b''"
proof -
  have lo: "0 \<le> roundDouble (1/10)" by (rule roundDouble_nonneg) simp
  have "roundDouble (1/10) \<le> real_of_int 1 * 2 powr real_of_int (- 2)"
    by (rule roundDouble_le) (simp_all add: powr_neg_numeral)
  then have hi: "roundDouble (1/10) \<le> 1/4" by (simp add: powr_neg_numeral)
  have "roundDouble (roundDouble (1/10) * 4) \<le> real_of_int 1"
    using lo hi by (intro roundDouble_le_int) simp_all
  then show "sample tableD (roundDouble (1/10)) = Inr ''a''"
    by (simp add: sample_def mulDouble_def tableD_def sampleAt_scenarioD)
  have "real_of_int 2 \<le> roundDouble (1/2 * 4)"
    by (intro roundDouble_ge_int) simp_all
  then show "sample tableD (1/2) = Inr ''b''"
    by (simp add: sample_def mulDouble_def tableD_def sampleAt_scenarioD)
  have "real_of_int 3 * 2 powr real_of_int (- 2) \<le> roundDouble (95/100)"
    by (rule roundDouble_ge) (simp_all add: powr_neg_numeral)
  then have lo95: "3/4 \<le> roundDouble (95/100)" by (simp add: powr_neg_numeral)
  have hi95: "roundDouble (95/100) \<le> real_of_int 1"
    by (intro roundDouble_le_int) simp_all
  have "real_of_int 3 \<le> roundDouble (roundDouble (95/100) * 4)"
    using lo95 hi95 by (intro roundDouble_ge_int) simp_all
  then show "sample tableD (roundDouble (95/100)) = Inr ''b''"
    by (simp add: sample_def mulDouble_def tableD_def sampleAt_scenarioD)
qed

text \<open>
  C5, as stated, fails, in two ways. The claim asks only for one entry and
  nondecreasing cumulative weights, and \<open>totalWeight\<close> is a field of its own: on a
  table with the single entry \<open>a\<close> (cumulative weight 1) and \<open>totalWeight = 4\<close>,
  \<open>sample(0.5)\<close> has target 2, no index has a cumulative weight of at least 2, and
  the search returns the last entry. And the target is the product as the machine
  rounds it: on the table \<open>a\<close> (cumulative weight 2), \<open>b\<close> (cumulative weight 3) with
  \<open>totalWeight = 3\<close>, and \<open>randomUnit\<close> the double nearest to 2/3, the exact product is
  above 2, so the smallest index at or above it is that of \<open>b\<close>, but the product is
  rounded to 2 and \<open>a\<close> is returned.
\<close>

theorem sample_least_counterexample:
  "words tableShort \<noteq> [] \<and> sorted (map cumulativeWeight (words tableShort))
   \<and> length (words tableShort) = 1
   \<and> sample tableShort (1/2) = Inr (word (words tableShort ! 0))
   \<and> real_of_int (cumulativeWeight (words tableShort ! 0))
       < 1/2 * real_of_int (totalWeight tableShort)
   \<and> real_of_int (cumulativeWeight (words tableShort ! 0))
       < mulDouble (1/2) (real_of_int (totalWeight tableShort))
   \<and> sorted (map cumulativeWeight (words tableTie))
   \<and> totalWeight tableTie = cumulativeWeight (last (words tableTie))
   \<and> sample tableTie (6004799503160662 / 9007199254740992) = Inr (word (words tableTie ! 0))
   \<and> real_of_int (cumulativeWeight (words tableTie ! 0))
       < 6004799503160662 / 9007199254740992 * real_of_int (totalWeight tableTie)
   \<and> 6004799503160662 / 9007199254740992 * real_of_int (totalWeight tableTie)
       \<le> real_of_int (cumulativeWeight (words tableTie ! 1))"
proof -
  have two: "real_of_int 2 \<le> roundDouble (1/2 * 4)"
    by (intro roundDouble_ge_int) simp_all
  have short: "sample tableShort (1/2) = Inr (word (words tableShort ! 0))"
    by (simp add: sample_def sampleAt_def tableShort_def binarySearch.simps entryAt_def)
  have tie: "sample tableTie (6004799503160662 / 9007199254740992) = Inr (word (words tableTie ! 0))"
    by (simp add: sample_def mulDouble_def sampleAt_def tableTie_def binarySearch.simps
        entryAt_def roundDouble_tie)
  show ?thesis using two short tie
    by (simp add: tableShort_def tableTie_def mulDouble_def)
qed

text \<open>
  C5, amended. For every table with at least one entry, nondecreasing cumulative
  weights, \<open>0 \<le> totalWeight \<le> cumulativeWeight[last]\<close> (the precomputer writes
  \<open>totalWeight = cumulativeWeight[last]\<close>) and a last cumulative weight below \<open>2^53\<close>,
  and every \<open>randomUnit\<close> in \<open>[0,1)\<close>, \<open>sample\<close> returns \<open>entries[i].word\<close> for the
  smallest index \<open>i\<close> whose cumulative weight is at least the product
  \<open>randomUnit * totalWeight\<close> as computed, that is, rounded to a double. On the table
  of scenario D, \<open>sample(0.1) = a\<close>, \<open>sample(0.5) = b\<close> and \<open>sample(0.95) = b\<close>, where
  0.1 and 0.95 stand for the doubles nearest to them.
\<close>

theorem sample_least:
  assumes "words st \<noteq> []" and "sorted (map cumulativeWeight (words st))"
    and "0 \<le> totalWeight st" and "totalWeight st \<le> cumulativeWeight (last (words st))"
    and "cumulativeWeight (last (words st)) < 2 ^ 53"
    and "0 \<le> randomUnit" and "randomUnit < 1"
  shows "(\<exists>i<length (words st). sample st randomUnit = Inr (word (words st ! i))
           \<and> mulDouble randomUnit (real_of_int (totalWeight st))
                \<le> real_of_int (cumulativeWeight (words st ! i))
           \<and> (\<forall>j<i. real_of_int (cumulativeWeight (words st ! j))
                < mulDouble randomUnit (real_of_int (totalWeight st))))
         \<and> sample tableD (roundDouble (1/10)) = Inr ''a'' \<and> sample tableD (1/2) = Inr ''b''
         \<and> sample tableD (roundDouble (95/100)) = Inr ''b''"
proof -
  have nn: "0 \<le> randomUnit * real_of_int (totalWeight st)"
    using assms(3,6) by simp
  have "randomUnit * real_of_int (totalWeight st) \<le> 1 * real_of_int (totalWeight st)"
    using assms(3,7) by (intro mult_right_mono) auto
  also have "\<dots> \<le> real_of_int (cumulativeWeight (last (words st)))"
    using assms(4) by simp
  finally have "randomUnit * real_of_int (totalWeight st)
      \<le> real_of_int (cumulativeWeight (last (words st)))" .
  from roundDouble_le_int[OF nn this assms(5)]
  have "mulDouble randomUnit (real_of_int (totalWeight st))
      \<le> real_of_int (cumulativeWeight (last (words st)))"
    by (simp add: mulDouble_def)
  from sampleAt_least[OF assms(1,2) this]
  have "\<exists>i<length (words st). sample st randomUnit = Inr (word (words st ! i))
           \<and> mulDouble randomUnit (real_of_int (totalWeight st))
                \<le> real_of_int (cumulativeWeight (words st ! i))
           \<and> (\<forall>j<i. real_of_int (cumulativeWeight (words st ! j))
                < mulDouble randomUnit (real_of_int (totalWeight st)))"
    unfolding sample_def .
  with sample_tableD show ?thesis by blast
qed

theorem sample_least_witness:
  "words tableD \<noteq> [] \<and> sorted (map cumulativeWeight (words tableD))
   \<and> 0 \<le> totalWeight tableD \<and> totalWeight tableD \<le> cumulativeWeight (last (words tableD))
   \<and> cumulativeWeight (last (words tableD)) < 2 ^ 53
   \<and> (0::real) \<le> 1/2 \<and> (1/2::real) < 1
   \<and> (\<exists>i<length (words tableD). sample tableD (1/2) = Inr (word (words tableD ! i))
        \<and> mulDouble (1/2) (real_of_int (totalWeight tableD))
             \<le> real_of_int (cumulativeWeight (words tableD ! i))
        \<and> (\<forall>j<i. real_of_int (cumulativeWeight (words tableD ! j))
             < mulDouble (1/2) (real_of_int (totalWeight tableD))))"
proof -
  have h: "words tableD \<noteq> []" "sorted (map cumulativeWeight (words tableD))"
    "0 \<le> totalWeight tableD" "totalWeight tableD \<le> cumulativeWeight (last (words tableD))"
    "cumulativeWeight (last (words tableD)) < 2 ^ 53"
    "(0::real) \<le> 1/2" "(1/2::real) < 1"
    by (simp_all add: tableD_def scenarioD_def)
  from sample_least[OF h] h show ?thesis by blast
qed

section \<open>The sampling table of the precomputer\<close>

lemma withCumulative_snd_Cons:
  "snd (withCumulative c (s # rest)) =
     \<lparr>word = ws_word s, numConnections = ws_numConnections s,
      graphSize = ws_graphSize s, cumulativeWeight = c + ws_numConnections s\<rparr>
     # snd (withCumulative (c + ws_numConnections s) rest)"
  "fst (withCumulative c (s # rest)) = fst (withCumulative (c + ws_numConnections s) rest)"
  by (simp_all add: Let_def split: prod.splits)

declare withCumulative.simps(2) [simp del]

lemma withCumulative_length: "length (snd (withCumulative c ss)) = length ss"
  by (induction ss arbitrary: c) (simp_all add: withCumulative_snd_Cons)

lemma withCumulative_numConnections:
  "map numConnections (snd (withCumulative c ss)) = map ws_numConnections ss"
  by (induction ss arbitrary: c) (simp_all add: withCumulative_snd_Cons)

lemma withCumulative_step:
  "i < length ss \<Longrightarrow>
   cumulativeWeight (snd (withCumulative c ss) ! i) =
     (if i = 0 then c else cumulativeWeight (snd (withCumulative c ss) ! (i - 1)))
     + numConnections (snd (withCumulative c ss) ! i)"
proof (induction ss arbitrary: c i)
  case Nil
  then show ?case by simp
next
  case (Cons s ss)
  show ?case
  proof (cases i)
    case 0
    then show ?thesis by (simp add: withCumulative_snd_Cons)
  next
    case (Suc j)
    then have j: "j < length ss" using Cons.prems by simp
    show ?thesis
    proof (cases j)
      case 0
      then show ?thesis using Suc Cons.IH[OF j, of "c + ws_numConnections s"]
        by (simp add: withCumulative_snd_Cons)
    next
      case (Suc k)
      then show ?thesis using \<open>i = Suc j\<close> Cons.IH[OF j, of "c + ws_numConnections s"]
        by (simp add: withCumulative_snd_Cons)
    qed
  qed
qed

lemma withCumulative_total:
  "fst (withCumulative c ss) =
     (if ss = [] then c else cumulativeWeight (last (snd (withCumulative c ss))))"
proof (induction ss arbitrary: c)
  case Nil
  then show ?case by simp
next
  case (Cons s ss)
  show ?case
  proof (cases ss)
    case Nil
    then show ?thesis by (simp add: withCumulative_snd_Cons)
  next
    case (Cons t ts)
    let ?rest = "snd (withCumulative (c + ws_numConnections s) ss)"
    have ne: "?rest \<noteq> []"
      using Cons by (simp add: withCumulative_snd_Cons)
    have "fst (withCumulative c (s # ss)) = fst (withCumulative (c + ws_numConnections s) ss)"
      by (simp add: withCumulative_snd_Cons)
    also have "\<dots> = cumulativeWeight (last ?rest)"
      using Cons.IH[of "c + ws_numConnections s"] Cons by simp
    also have "last ?rest = last (snd (withCumulative c (s # ss)))"
      using ne by (simp add: withCumulative_snd_Cons(1)[of c s ss])
    finally show ?thesis by simp
  qed
qed

lemma withCumulative_increasing:
  "\<forall>s \<in> set ss. ws_numConnections s > 0 \<Longrightarrow>
   sorted_wrt (<) (map cumulativeWeight (snd (withCumulative c ss)))
   \<and> (\<forall>e \<in> set (snd (withCumulative c ss)). c < cumulativeWeight e)"
proof (induction ss arbitrary: c)
  case Nil
  then show ?case by simp
next
  case (Cons s ss)
  from Cons.IH[of "c + ws_numConnections s"] Cons.prems
  show ?case by (fastforce simp: withCumulative_snd_Cons)
qed

lemma precompute_unfold:
  "precompute data =
     \<lparr>totalWeight = fst (withCumulative 0 (sort_key ws_graphSize
          (filter (\<lambda>s. ws_graphSize s > 1 \<and> ws_numConnections s > 0
                                  \<and> ws_graphSize s \<le> MAX_NODES) (collectStats data)))),
      words = snd (withCumulative 0 (sort_key ws_graphSize
          (filter (\<lambda>s. ws_graphSize s > 1 \<and> ws_numConnections s > 0
                                  \<and> ws_graphSize s \<le> MAX_NODES) (collectStats data))))\<rparr>"
  by (simp add: precompute_def Let_def split: prod.splits)

text \<open>
  C6. For every index, the table the precomputer builds satisfies
  \<open>cumulativeWeight[0] = numConnections[0]\<close>,
  \<open>cumulativeWeight[i] = cumulativeWeight[i-1] + numConnections[i]\<close> for \<open>i \<ge> 1\<close>,
  every retained entry has \<open>numConnections > 0\<close>, \<open>totalWeight\<close> is the last
  cumulative weight (0 for an empty table), and the cumulative weights are strictly
  increasing.
\<close>

theorem precompute_cumulative:
  "(\<forall>i < length (words (precompute data)).
      cumulativeWeight (words (precompute data) ! i) =
        (if i = 0 then 0 else cumulativeWeight (words (precompute data) ! (i - 1)))
        + numConnections (words (precompute data) ! i)
      \<and> numConnections (words (precompute data) ! i) > 0)
   \<and> totalWeight (precompute data) =
        (if words (precompute data) = [] then 0
         else cumulativeWeight (last (words (precompute data))))
   \<and> sorted_wrt (<) (map cumulativeWeight (words (precompute data)))"
proof -
  define ss where "ss = sort_key ws_graphSize
          (filter (\<lambda>s. ws_graphSize s > 1 \<and> ws_numConnections s > 0
                                  \<and> ws_graphSize s \<le> MAX_NODES) (collectStats data))"
  define es where "es = words (precompute data)"
  have w: "es = snd (withCumulative 0 ss)"
    and t: "totalWeight (precompute data) = fst (withCumulative 0 ss)"
    unfolding es_def ss_def by (simp_all add: precompute_unfold)
  have pos: "\<forall>s \<in> set ss. ws_numConnections s > 0"
    unfolding ss_def by simp
  have len: "length es = length ss"
    by (simp add: w withCumulative_length)
  have nc: "numConnections (es ! i) > 0" if i: "i < length es" for i
  proof -
    have "numConnections (es ! i) = map numConnections es ! i"
      using i by simp
    also have "\<dots> = ws_numConnections (ss ! i)"
      using i len unfolding w withCumulative_numConnections by simp
    finally show ?thesis using pos i len by simp
  qed
  have step: "cumulativeWeight (es ! i) =
        (if i = 0 then 0 else cumulativeWeight (es ! (i - 1))) + numConnections (es ! i)"
    if "i < length es" for i
    using that unfolding len unfolding w by (rule withCumulative_step)
  have empty: "es = [] \<longleftrightarrow> ss = []"
    using len by (metis length_0_conv)
  have total: "totalWeight (precompute data) =
        (if es = [] then 0 else cumulativeWeight (last es))"
    unfolding empty unfolding t w by (rule withCumulative_total)
  have incr: "sorted_wrt (<) (map cumulativeWeight es)"
    unfolding w using withCumulative_increasing[OF pos, of 0] by (rule conjunct1)
  from step nc total incr show ?thesis unfolding es_def by blast
qed

theorem precompute_cumulative_witness:
  "(1::nat) < length (words (precompute scenarioA))
   \<and> cumulativeWeight (words (precompute scenarioA) ! 1) =
       cumulativeWeight (words (precompute scenarioA) ! 0)
       + numConnections (words (precompute scenarioA) ! 1)
   \<and> totalWeight (precompute scenarioA) = cumulativeWeight (last (words (precompute scenarioA)))"
proof -
  have l: "(1::nat) < length (words (precompute scenarioA))" by code_simp
  then have ne: "words (precompute scenarioA) \<noteq> []" by auto
  from precompute_cumulative[of scenarioA] l ne show ?thesis by simp
qed

section \<open>When \<open>getRandomWord\<close> returns a word\<close>

text \<open>
  A word of the index is connected when its entry has a related word. \<open>drawn\<close> is the
  candidate of the \<open>k\<close>-th draw of the retry variant, and the draw is a hit when the
  lookup of the candidate gives an entry with a related word.
\<close>

definition connected :: "EtymologyData \<Rightarrow> string \<Rightarrow> bool" where
  "connected data w =
     (case ownEntry data w of None \<Rightarrow> False | Some entry \<Rightarrow> entry_relatedWords entry \<noteq> [])"

definition drawn :: "EtymologyData \<Rightarrow> (nat \<Rightarrow> real) \<Rightarrow> nat \<Rightarrow> string option" where
  "drawn data rs k = entryAtInt (keys data) (drawIndex (rs k) (length (keys data)))"

definition hit :: "EtymologyData \<Rightarrow> (nat \<Rightarrow> real) \<Rightarrow> nat \<Rightarrow> bool" where
  "hit data rs k =
     (case lookup data (propertyKey (drawn data rs k)) of
        EntryObject entry \<Rightarrow> entry_relatedWords entry \<noteq> []
      | _ \<Rightarrow> False)"

lemma lookup_EntryObject: "lookup data w = EntryObject e \<longleftrightarrow> ownEntry data w = Some e"
  by (auto simp: lookup_def split: option.splits)

lemma key_own: "w \<in> set (keys data) \<Longrightarrow> \<exists>e. ownEntry data w = Some e"
  by (cases "map_of data w") (auto simp: ownEntry_def keys_def map_of_eq_None_iff)

lemma own_key: "ownEntry data w = Some e \<Longrightarrow> w \<in> set (keys data)"
  by (force simp: ownEntry_def keys_def dest: map_of_SomeD)

lemma firstConnected_keys:
  "set ws \<subseteq> set (keys data) \<Longrightarrow> firstConnected data ws = Inr (find (connected data) ws)"
proof (induction ws)
  case Nil
  then show ?case by simp
next
  case (Cons w ws)
  from Cons.prems key_own[of w data] obtain e where e: "ownEntry data w = Some e" by auto
  then have l: "lookup data w = EntryObject e" by (simp add: lookup_EntryObject)
  show ?case using Cons e l by (simp add: connected_def)
qed

lemma find_None_list_ex: "find P xs = None \<longleftrightarrow> \<not> list_ex P xs"
  by (auto simp: find_None_iff list_ex_iff)

lemma sampleAt_word:
  assumes "ws \<noteq> []"
  shows "\<exists>i<length ws. sampleAt ws random = Inr (word (ws ! i))"
proof -
  have r: "length ws - 1 < length ws" using assms by (cases ws) auto
  from binarySearch_in_bounds[OF r, of 0 random]
  obtain i where i: "binarySearch ws random 0 (length ws - 1) = Inr i" "i \<le> length ws - 1"
    by auto
  then have "i < length ws" using r by linarith
  then show ?thesis using i by (auto simp: sampleAt_def entryAt_def)
qed

lemma getRandomWord_table:
  assumes "words st \<noteq> []"
  shows "\<exists>w. getRandomWord data (Some st) randomUnit = Inr (Some w)"
proof -
  from sampleAt_word[OF assms] obtain i where
    "sampleAt (words st) (mulDouble randomUnit (real_of_int (totalWeight st)))
       = Inr (word (words st ! i))"
    by blast
  then show ?thesis using assms by (simp add: getRandomWord_def sample_def)
qed

lemma getRandomWord_fallback:
  assumes "\<forall>st. stats = Some st \<longrightarrow> words st = []"
  shows "getRandomWord data stats randomUnit = Inr (find (connected data) (keys data))"
  using assms firstConnected_keys[of "keys data" data]
  by (cases stats) (simp_all add: getRandomWord_def)

lemma candidate_lookup:
  "lookup data (propertyKey (entryAtInt (keys data) i)) \<noteq> Inherited"
proof (cases "entryAtInt (keys data) i")
  case None
  have "''undefined'' \<notin> set prototypeNames" by (simp add: prototypeNames_def)
  then show ?thesis using None by (simp add: propertyKey_def lookup_def split: option.splits)
next
  case (Some w)
  then have "w \<in> set (keys data)" by (auto simp: entryAtInt_def split: if_splits)
  from key_own[OF this] Some show ?thesis by (auto simp: propertyKey_def lookup_def)
qed

lemma pickX_miss:
  "\<forall>k. attempts \<le> k \<and> k < maxAttempts \<longrightarrow> \<not> hit data rs k \<Longrightarrow>
   pickX data (keys data) rs attempts = Inr None"
proof (induction "maxAttempts - attempts" arbitrary: attempts)
  case 0
  then show ?case by (subst pickX.simps) simp
next
  case (Suc n)
  then have lt: "attempts < maxAttempts" by simp
  have nh: "\<not> hit data rs attempts" using Suc.prems lt by simp
  have ih: "pickX data (keys data) rs (attempts + 1) = Inr None"
    using Suc.hyps(1)[of "attempts + 1"] Suc.hyps(2) Suc.prems by simp
  show ?case
    using lt nh ih candidate_lookup[of data "drawIndex (rs attempts) (length (keys data))"]
    by (subst pickX.simps) (auto simp: hit_def drawn_def split: js_value.splits)
qed

lemma pickX_hit:
  "attempts \<le> k \<Longrightarrow> k < maxAttempts \<Longrightarrow> hit data rs k \<Longrightarrow>
   \<forall>j. attempts \<le> j \<and> j < k \<longrightarrow> \<not> hit data rs j \<Longrightarrow>
   \<exists>e. pickX data (keys data) rs attempts = Inr (Some (drawn data rs k, e, k + 1))"
proof (induction "k - attempts" arbitrary: attempts)
  case 0
  then have eq: "attempts = k" by simp
  show ?case using 0(3,4) unfolding eq
    by (subst pickX.simps) (auto simp: hit_def drawn_def split: js_value.splits)
next
  case (Suc n)
  then have lt: "attempts < k" "attempts < maxAttempts" by simp_all
  have nh: "\<not> hit data rs attempts" using Suc.prems(4) lt by simp
  have "\<exists>e. pickX data (keys data) rs (attempts + 1) = Inr (Some (drawn data rs k, e, k + 1))"
    using Suc.hyps(1)[of "attempts + 1"] Suc.hyps(2) Suc.prems by simp
  then show ?case
    using lt nh candidate_lookup[of data "drawIndex (rs attempts) (length (keys data))"]
    by (subst pickX.simps) (auto simp: hit_def drawn_def split: js_value.splits)
qed

lemma retry_all_miss:
  assumes "\<forall>k<maxAttempts. \<not> hit data rs k"
  shows "getRandomWord_retry data rs = Inr None"
proof -
  have "pickX data (keys data) rs 0 = Inr None"
    by (rule pickX_miss) (simp add: assms)
  then show ?thesis by (simp add: getRandomWord_retry_def Let_def)
qed

lemma retry_first_hit:
  assumes "keys data \<noteq> []" and "k < maxAttempts" and "hit data rs k"
    and "\<forall>j<k. \<not> hit data rs j"
  shows "getRandomWord_retry data rs = Inr None
         \<longleftrightarrow> drawn data rs k = None \<or> drawn data rs k = Some []"
proof -
  from pickX_hit[of 0 k data rs] assms obtain e where
    p: "pickX data (keys data) rs 0 = Inr (Some (drawn data rs k, e, k + 1))" by auto
  show ?thesis
  proof (cases "drawn data rs k = None \<or> drawn data rs k = Some []")
    case True
    then show ?thesis using assms(1) p by (auto simp: getRandomWord_retry_def Let_def)
  next
    case False
    then obtain w where w: "drawn data rs k = Some w" "w \<noteq> []" by (cases "drawn data rs k") auto
    have "getRandomWord_retry data rs \<noteq> Inr None"
      using assms(1) p w
      by (cases "pickY data e rs (k + 1) 0")
         (auto simp: getRandomWord_retry_def Let_def split: option.splits)
    then show ?thesis using False by simp
  qed
qed

lemma hit_connected: "hit data rs k \<Longrightarrow> list_ex (connected data) (keys data)"
proof -
  assume "hit data rs k"
  then obtain e where e: "lookup data (propertyKey (drawn data rs k)) = EntryObject e"
      "entry_relatedWords e \<noteq> []"
    by (auto simp: hit_def split: js_value.splits)
  then have o: "ownEntry data (propertyKey (drawn data rs k)) = Some e"
    by (simp add: lookup_EntryObject)
  have "connected data (propertyKey (drawn data rs k))"
    using o e(2) by (simp add: connected_def)
  with own_key[OF o] show ?thesis
    unfolding list_ex_iff by (rule rev_bexI)
qed

text \<open>
  C7, as stated, fails: on an index with one word that has no related words, and no
  table (or an empty one), the table-based \<open>getRandomWord\<close> returns \<open>undefined\<close>
  although the index is not empty; and the retry variant returns \<open>undefined\<close> on an
  index of two words, one of them with a related word, when every draw lands on the
  other.
\<close>

theorem getRandomWord_absent_counterexample:
  "keys lonely \<noteq> [] \<and> getRandomWord lonely None (1/2) = Inr None
   \<and> getRandomWord lonely (Some \<lparr>totalWeight = 0, words = []\<rparr>) (1/2) = Inr None
   \<and> keys firstUnconnected \<noteq> [] \<and> connected firstUnconnected ''b''
   \<and> getRandomWord_retry firstUnconnected (\<lambda>k. 0) = Inr None"
proof -
  have 1: "keys lonely \<noteq> [] \<and> getRandomWord lonely None (1/2) = Inr None
   \<and> getRandomWord lonely (Some \<lparr>totalWeight = 0, words = []\<rparr>) (1/2) = Inr None"
    by (simp add: lonely_def keys_def getRandomWord_def lookup_def ownEntry_def)
  have 2: "keys firstUnconnected \<noteq> [] \<and> connected firstUnconnected ''b''"
    by (simp add: firstUnconnected_def keys_def connected_def ownEntry_def)
  have "\<not> hit firstUnconnected (\<lambda>k. 0) k" for k
    by (simp add: hit_def drawn_def drawIndex_def mulDouble_def roundDouble_def
        firstUnconnected_def keys_def entryAtInt_def propertyKey_def lookup_def ownEntry_def)
  then have 3: "getRandomWord_retry firstUnconnected (\<lambda>k. 0) = Inr None"
    by (intro retry_all_miss) simp
  from 1 2 3 show ?thesis by blast
qed

text \<open>
  C7, amended. The table-based \<open>getRandomWord\<close> never throws, and it returns
  \<open>undefined\<close> exactly when the sampling table is missing or has no entry and no word
  of the index is connected. The retry variant returns \<open>undefined\<close> exactly when the
  index is empty, or none of its 100 draws for \<open>X\<close> is a hit, or the first hit is the
  empty string (or an index out of range); so it returns \<open>undefined\<close> whenever no
  word of the index is connected, and also, when all draws miss, for an index with a
  connected word.
\<close>

theorem getRandomWord_absent_iff:
  "(getRandomWord data stats randomUnit = Inr None
      \<longleftrightarrow> (\<forall>st. stats = Some st \<longrightarrow> words st = []) \<and> \<not> list_ex (connected data) (keys data))
   \<and> (\<exists>r. getRandomWord data stats randomUnit = Inr r)
   \<and> (getRandomWord_retry data rs = Inr None
      \<longleftrightarrow> keys data = [] \<or> (\<forall>k<maxAttempts. \<not> hit data rs k)
          \<or> (\<exists>k<maxAttempts. hit data rs k \<and> (\<forall>j<k. \<not> hit data rs j)
                \<and> (drawn data rs k = None \<or> drawn data rs k = Some [])))
   \<and> (\<not> list_ex (connected data) (keys data) \<longrightarrow> getRandomWord_retry data rs = Inr None)"
proof (intro conjI)
  show "getRandomWord data stats randomUnit = Inr None
      \<longleftrightarrow> (\<forall>st. stats = Some st \<longrightarrow> words st = []) \<and> \<not> list_ex (connected data) (keys data)"
  proof (cases "\<forall>st. stats = Some st \<longrightarrow> words st = []")
    case True
    show ?thesis using True unfolding getRandomWord_fallback[OF True]
      by (simp add: find_None_list_ex)
  next
    case False
    then obtain st where st: "stats = Some st" "words st \<noteq> []" by auto
    from getRandomWord_table[OF st(2), of data randomUnit] st False show ?thesis by auto
  qed
  show "\<exists>r. getRandomWord data stats randomUnit = Inr r"
  proof (cases "\<forall>st. stats = Some st \<longrightarrow> words st = []")
    case True
    show ?thesis unfolding getRandomWord_fallback[OF True] by simp
  next
    case False
    then obtain st where st: "stats = Some st" "words st \<noteq> []" by auto
    from getRandomWord_table[OF st(2), of data randomUnit] st show ?thesis by auto
  qed
  show "getRandomWord_retry data rs = Inr None
      \<longleftrightarrow> keys data = [] \<or> (\<forall>k<maxAttempts. \<not> hit data rs k)
          \<or> (\<exists>k<maxAttempts. hit data rs k \<and> (\<forall>j<k. \<not> hit data rs j)
                \<and> (drawn data rs k = None \<or> drawn data rs k = Some []))"
  proof (cases "keys data = []")
    case True
    then show ?thesis by (simp add: getRandomWord_retry_def)
  next
    case ne: False
    show ?thesis
    proof (cases "\<forall>k<maxAttempts. \<not> hit data rs k")
      case True
      then show ?thesis using retry_all_miss[OF True] by simp
    next
      case False
      then have "\<exists>k. k < maxAttempts \<and> hit data rs k" by auto
      then obtain k where k: "k < maxAttempts \<and> hit data rs k"
          "\<forall>j<k. \<not> (j < maxAttempts \<and> hit data rs j)"
        unfolding exists_least_iff[of "\<lambda>k. k < maxAttempts \<and> hit data rs k"] by blast
      then have first: "\<forall>j<k. \<not> hit data rs j" by auto
      have uniq: "k' = k" if "k' < maxAttempts" "hit data rs k'" "\<forall>j<k'. \<not> hit data rs j" for k'
        using that k first by (meson linorder_neqE_nat)
      from retry_first_hit[OF ne _ _ first] k(1)
      have "getRandomWord_retry data rs = Inr None
          \<longleftrightarrow> drawn data rs k = None \<or> drawn data rs k = Some []" by simp
      then show ?thesis using ne False k(1) first uniq by blast
    qed
  qed
  show "\<not> list_ex (connected data) (keys data) \<longrightarrow> getRandomWord_retry data rs = Inr None"
    using hit_connected[of data rs] retry_all_miss[of data rs] by blast
qed

theorem getRandomWord_absent_iff_witness:
  "getRandomWord lonely None 0 = Inr None
   \<and> \<not> list_ex (connected lonely) (keys lonely)
   \<and> getRandomWord_retry lonely (\<lambda>k. 0) = Inr None
   \<and> list_ex (connected scenarioA) (keys scenarioA)
   \<and> getRandomWord scenarioA None 0 \<noteq> Inr None
   \<and> hit scenarioA (\<lambda>k. 0) 0 \<and> drawn scenarioA (\<lambda>k. 0) 0 = Some ''a''
   \<and> getRandomWord_retry scenarioA (\<lambda>k. 0) \<noteq> Inr None"
proof -
  have l: "\<not> list_ex (connected lonely) (keys lonely)"
    by (simp add: lonely_def keys_def connected_def ownEntry_def)
  have a: "list_ex (connected scenarioA) (keys scenarioA)"
    by (simp add: scenarioA_def keys_def connected_def ownEntry_def)
  have d: "drawn scenarioA (\<lambda>k. 0) 0 = Some ''a''"
    by (simp add: drawn_def drawIndex_def mulDouble_def roundDouble_def scenarioA_def keys_def
        entryAtInt_def)
  have h: "hit scenarioA (\<lambda>k. 0) 0"
    unfolding hit_def d by (simp add: propertyKey_def lookup_def ownEntry_def scenarioA_def)
  have k: "keys scenarioA \<noteq> []" by (simp add: scenarioA_def keys_def)
  have m: "(0::nat) < maxAttempts" by (simp add: maxAttempts_def)
  from getRandomWord_absent_iff[of lonely None 0 "\<lambda>k. 0"] l
  have 1: "getRandomWord lonely None 0 = Inr None"
    and 2: "getRandomWord_retry lonely (\<lambda>k. 0) = Inr None" by simp_all
  have 3: "getRandomWord scenarioA None 0 \<noteq> Inr None"
    using getRandomWord_absent_iff[of scenarioA None 0 "\<lambda>k. 0"] a by simp
  have 4: "getRandomWord_retry scenarioA (\<lambda>k. 0) \<noteq> Inr None"
  proof
    assume "getRandomWord_retry scenarioA (\<lambda>k. 0) = Inr None"
    with getRandomWord_absent_iff[of scenarioA None 0 "\<lambda>k. 0"] k
    consider "\<forall>k<maxAttempts. \<not> hit scenarioA (\<lambda>k. 0) k"
      | k' where "k' < maxAttempts" "hit scenarioA (\<lambda>k. 0) k'"
          "\<forall>j<k'. \<not> hit scenarioA (\<lambda>k. 0) j"
          "drawn scenarioA (\<lambda>k. 0) k' = None \<or> drawn scenarioA (\<lambda>k. 0) k' = Some []"
      by blast
    then show False
    proof cases
      case 1
      then show False using h m by blast
    next
      case 2
      have "k' = 0" using 2(3) h by (cases k') auto
      then show False using 2(4) d by simp
    qed
  qed
  from 1 l 2 a 3 h d 4 show ?thesis by blast
qed

section \<open>The counting search refines the dequeue-time GraphBuilder\<close>


lemma scanStep_queue:
  "sc_queue (scanStep data depth cw cd r s) =
     (let nr = normalize_word r in
      if nr \<notin> sc_visited s \<and> lookup data nr \<noteq> Undefined \<and> cd < depth
      then sc_queue s @ [(nr, cd + 1)] else sc_queue s)"
  by (simp add: scanStep_def Let_def)

lemma scanRelated_queue:
  "sc_queue (scanRelated data depth cw cd rels s) =
     sizeRelated data depth (sc_visited s) cd rels (sc_queue s)"
proof (induction rels arbitrary: s)
  case Nil
  then show ?case by simp
next
  case (Cons r rels)
  show ?case
    using Cons.IH[of "scanStep data depth cw cd r s"]
    by (simp add: scanStep_frame(1) scanStep_queue)
qed

lemma scanLoop_visited:
  "sc_visited (scanLoop data depth s) = sizeLoop data depth (sc_visited s) (sc_queue s)"
proof (induction data depth s rule: scanLoop.induct)
  case (1 data depth s)
  show ?case
  proof (cases "sc_queue s")
    case Nil
    then show ?thesis by (subst scanLoop.simps, subst sizeLoop.simps) simp
  next
    case (Cons x q)
    obtain cw cd where x: "x = (cw, cd)" by (cases x)
    show ?thesis
    proof (cases "cw \<in> sc_visited s \<or> cd > depth")
      case True
      then show ?thesis using "1.IH"(1)[OF Cons x[symmetric] True]
        by (subst scanLoop.simps, subst sizeLoop.simps) (simp add: Cons x)
    next
      case False
      show ?thesis
      proof (cases "lookup data cw")
        case Undefined
        then show ?thesis using "1.IH"(2)[OF Cons x[symmetric] False Undefined] False
          by (subst scanLoop.simps, subst sizeLoop.simps) (simp add: Cons x)
      next
        case (EntryObject entry)
        then show ?thesis using "1.IH"(3)[OF Cons x[symmetric] False EntryObject] False
          by (subst scanLoop.simps, subst sizeLoop.simps)
             (simp add: Cons x scanRelated_frame(1) scanRelated_queue)
      next
        case Inherited
        then show ?thesis using "1.IH"(4)[OF Cons x[symmetric] False Inherited] False
          by (subst scanLoop.simps, subst sizeLoop.simps) (simp add: Cons x)
      qed
    qed
  qed
qed

lemma scanLoop_count:
  "\<forall>(w, d) \<in> set (sc_queue s). lookup data w \<noteq> Undefined \<Longrightarrow> finite (sc_visited s) \<Longrightarrow>
   finite (sc_visited (scanLoop data depth s)) \<and>
   length (sc_nodes (scanLoop data depth s)) + card (sc_visited s)
     = length (sc_nodes s) + card (sc_visited (scanLoop data depth s))"
proof (induction data depth s rule: scanLoop.induct)
  case (1 data depth s)
  show ?case
  proof (cases "sc_queue s")
    case Nil
    then show ?thesis using "1.prems" by (subst (1 2 3) scanLoop.simps) simp
  next
    case (Cons x q)
    obtain cw cd where x: "x = (cw, cd)" by (cases x)
    show ?thesis
    proof (cases "cw \<in> sc_visited s \<or> cd > depth")
      case True
      have "\<forall>(w, d) \<in> set (sc_queue (s\<lparr>sc_queue := q\<rparr>)). lookup data w \<noteq> Undefined"
        using "1.prems"(1) Cons by simp
      then show ?thesis using "1.IH"(1)[OF Cons x[symmetric] True] "1.prems"(2) True
        by (subst (1 2 3) scanLoop.simps) (simp add: Cons x)
    next
      case False
      from "1.prems"(1) Cons x have truthy: "lookup data cw \<noteq> Undefined" by auto
      show ?thesis
      proof (cases "lookup data cw")
        case Undefined
        then show ?thesis using truthy by simp
      next
        case (EntryObject entry)
        let ?s0 = "s\<lparr>sc_queue := q, sc_visited := insert cw (sc_visited s),
                      sc_nodes := sc_nodes s @ [mkNode cw entry cd]\<rparr>"
        let ?s1 = "scanRelated data depth cw cd (entry_relatedWords entry) ?s0"
        have step: "scanLoop data depth s = scanLoop data depth ?s1"
          using False EntryObject by (subst scanLoop.simps) (simp add: Cons x)
        obtain new where new: "sc_queue ?s1 = sc_queue ?s0 @ new"
            "fst ` set new \<subseteq> truthyNames data"
          using scanRelated_frame(3)[of data depth cw cd "entry_relatedWords entry" ?s0] by blast
        have "\<forall>(w, d) \<in> set new. lookup data w \<noteq> Undefined"
          using new(2) truthy_iff[of data] by fastforce
        then have q1: "\<forall>(w, d) \<in> set (sc_queue ?s1). lookup data w \<noteq> Undefined"
          using "1.prems"(1) Cons unfolding new(1) by auto
        have v1: "sc_visited ?s1 = insert cw (sc_visited s)" by (simp add: scanRelated_frame)
        have n1: "sc_nodes ?s1 = sc_nodes s @ [mkNode cw entry cd]"
          by (simp add: scanRelated_frame)
        have f1: "finite (sc_visited ?s1)" using "1.prems"(2) v1 by simp
        from "1.IH"(3)[OF Cons x[symmetric] False EntryObject q1 f1]
        have ih: "finite (sc_visited (scanLoop data depth ?s1))"
          "length (sc_nodes (scanLoop data depth ?s1)) + card (sc_visited ?s1)
             = length (sc_nodes ?s1) + card (sc_visited (scanLoop data depth ?s1))" by auto
        have "card (sc_visited ?s1) = Suc (card (sc_visited s))"
          using False "1.prems"(2) unfolding v1 by simp
        then show ?thesis using ih unfolding step n1 by simp
      next
        case Inherited
        let ?s1 = "s\<lparr>sc_queue := q, sc_visited := insert cw (sc_visited s),
                      sc_nodes := sc_nodes s @ [inheritedNode cw cd]\<rparr>"
        have step: "scanLoop data depth s = scanLoop data depth ?s1"
          using False Inherited by (subst scanLoop.simps) (simp add: Cons x)
        have q1: "\<forall>(w, d) \<in> set (sc_queue ?s1). lookup data w \<noteq> Undefined"
          using "1.prems"(1) Cons by simp
        have f1: "finite (sc_visited ?s1)" using "1.prems"(2) by simp
        from "1.IH"(4)[OF Cons x[symmetric] False Inherited q1 f1]
        have ih: "finite (sc_visited (scanLoop data depth ?s1))"
          "length (sc_nodes (scanLoop data depth ?s1)) + card (sc_visited ?s1)
             = length (sc_nodes ?s1) + card (sc_visited (scanLoop data depth ?s1))" by auto
        have "card (sc_visited ?s1) = Suc (card (sc_visited s))"
          using False "1.prems"(2) by simp
        then show ?thesis using ih unfolding step by simp
      qed
    qed
  qed
qed

lemma scanLoop_nodes_prefix:
  "\<exists>ext. sc_nodes (scanLoop data depth s) = sc_nodes s @ ext"
proof (induction data depth s rule: scanLoop.induct)
  case (1 data depth s)
  show ?case
  proof (cases "sc_queue s")
    case Nil
    then show ?thesis by (subst scanLoop.simps) simp
  next
    case (Cons x q)
    obtain cw cd where x: "x = (cw, cd)" by (cases x)
    show ?thesis
    proof (cases "cw \<in> sc_visited s \<or> cd > depth")
      case True
      then show ?thesis using "1.IH"(1)[OF Cons x[symmetric] True]
        by (subst scanLoop.simps) (simp add: Cons x)
    next
      case False
      show ?thesis
      proof (cases "lookup data cw")
        case Undefined
        then show ?thesis using "1.IH"(2)[OF Cons x[symmetric] False Undefined] False
          by (subst scanLoop.simps) (simp add: Cons x)
      next
        case (EntryObject entry)
        then show ?thesis using "1.IH"(3)[OF Cons x[symmetric] False EntryObject] False
          by (subst scanLoop.simps) (auto simp add: Cons x scanRelated_frame(2))
      next
        case Inherited
        then show ?thesis using "1.IH"(4)[OF Cons x[symmetric] False Inherited] False
          by (subst scanLoop.simps) (auto simp add: Cons x)
      qed
    qed
  qed
qed

lemma scanGraph_root:
  assumes "lookup data nw \<noteq> Undefined" and "0 \<le> depth"
  shows "\<exists>n ext. sc_nodes (scanGraph data nw depth) = n # ext
           \<and> node_id n = nw \<and> node_depth n = 0"
proof (cases "lookup data nw")
  case Undefined
  then show ?thesis using assms(1) by simp
next
  case (EntryObject entry)
  let ?init = "\<lparr>sc_nodes = [], sc_edges = [], sc_visited = {}, sc_queue = [(nw, 0)]\<rparr>"
  let ?s0 = "?init\<lparr>sc_queue := [], sc_visited := insert nw (sc_visited ?init),
                sc_nodes := sc_nodes ?init @ [mkNode nw entry 0]\<rparr>"
  let ?s1 = "scanRelated data depth nw 0 (entry_relatedWords entry) ?s0"
  have "scanLoop data depth ?init = scanLoop data depth ?s1"
    using EntryObject assms(2) by (subst scanLoop.simps) simp
  moreover have "sc_nodes ?s1 = [mkNode nw entry 0]" by (simp add: scanRelated_frame(2))
  ultimately show ?thesis
    using scanLoop_nodes_prefix[of data depth ?s1] by (auto simp: scanGraph_def mkNode_def)
next
  case Inherited
  let ?init = "\<lparr>sc_nodes = [], sc_edges = [], sc_visited = {}, sc_queue = [(nw, 0)]\<rparr>"
  let ?s1 = "?init\<lparr>sc_queue := [], sc_visited := insert nw (sc_visited ?init),
                sc_nodes := sc_nodes ?init @ [inheritedNode nw 0]\<rparr>"
  have "scanLoop data depth ?init = scanLoop data depth ?s1"
    using Inherited assms(2) by (subst scanLoop.simps) simp
  then show ?thesis
    using scanLoop_nodes_prefix[of data depth ?s1] by (auto simp: scanGraph_def inheritedNode_def)
qed

text \<open>
  For every index, word and depth bound, \<open>computeGraphSize\<close> equals the length of the
  node list of the dequeue-time GraphBuilder without hub pruning (both normalise the
  word themselves); for a depth bound \<open>d \<ge> 0\<close> it is 0 exactly when the guard
  \<open>!data[normalizedWord]\<close> holds, that is, when the lookup gives \<open>undefined\<close>.
\<close>

lemma computeGraphSize_nodes:
  "computeGraphSize w depth data = int (length (nodes (getWordGraph_plain data w depth)))"
proof (cases "lookup data (normalize_word w) = Undefined")
  case True
  then show ?thesis by (simp add: computeGraphSize_def getWordGraph_plain_def)
next
  case False
  let ?nw = "normalize_word w"
  let ?init = "\<lparr>sc_nodes = [], sc_edges = [], sc_visited = {}, sc_queue = [(?nw, 0)]\<rparr>"
  have "\<forall>(w, d) \<in> set (sc_queue ?init). lookup data w \<noteq> Undefined" using False by simp
  from scanLoop_count[OF this, of depth]
  have "length (sc_nodes (scanGraph data ?nw depth)) = card (sc_visited (scanGraph data ?nw depth))"
    by (simp add: scanGraph_def)
  also have "sc_visited (scanGraph data ?nw depth) = sizeLoop data depth {} [(?nw, 0)]"
    by (simp add: scanGraph_def scanLoop_visited)
  finally show ?thesis
    using False by (simp add: computeGraphSize_def getWordGraph_plain_def Let_def)
qed

lemma computeGraphSize_zero:
  assumes "0 \<le> depth"
  shows "computeGraphSize w depth data = 0 \<longleftrightarrow> lookup data (normalize_word w) = Undefined"
proof (cases "lookup data (normalize_word w) = Undefined")
  case True
  then show ?thesis by (simp add: computeGraphSize_def)
next
  case False
  from scanGraph_root[OF False assms]
  have "nodes (getWordGraph_plain data w depth) \<noteq> []"
    using False by (auto simp: getWordGraph_plain_def Let_def)
  then show ?thesis using False unfolding computeGraphSize_nodes by simp
qed

text \<open>
  C8. The claim says that \<open>computeGraphSize\<close> is 0 exactly when the normalised word is
  absent from the index. The guard tests \<open>data[normalizedWord]\<close>, which is truthy
  for a name inherited from \<open>Object.prototype\<close>: for the word \<open>constructor\<close>, which is
  not a key of the index of scenario A, the function returns 1. The equality with
  the node count of the dequeue-time GraphBuilder holds for every input
  (\<open>computeGraphSize_nodes\<close>), \<open>getWordGraph\<close> having the same guard.
\<close>

theorem computeGraphSize_inherited:
  "ownEntry scenarioA (normalize_word ''constructor'') = None
   \<and> computeGraphSize ''constructor'' 3 scenarioA = 1
   \<and> length (nodes (getWordGraph_plain scenarioA ''constructor'' 3)) = 1"
  by code_simp

section \<open>Hub pruning removes the children of a hub and their descendants\<close>

definition kids :: "ChildrenMap \<Rightarrow> string \<Rightarrow> string set" where
  "kids cbp p = (case map_of cbp p of None \<Rightarrow> {} | Some cs \<Rightarrow> cs)"



lemma addChild_kids:
  "kids (addChild p c cbp) q = (if q = p then insert c (kids cbp p) else kids cbp q)"
  by (induction cbp) (auto simp: kids_def)

lemma childrenOf_Cons:
  "childrenOf m (e # es) p =
     (if edge_from e = p \<and> depthOrZero m (edge_from e) < depthOrZero m (edge_to e)
      then {edge_to e} else {})
     \<union> (if edge_to e = p \<and> depthOrZero m (edge_to e) < depthOrZero m (edge_from e)
        then {edge_from e} else {})
     \<union> childrenOf m es p"
  by (auto simp: childrenOf_def)

lemma childrenOf_Nil: "childrenOf m [] p = {}"
  by (simp add: childrenOf_def)

lemma buildChildren_kids:
  "kids (buildChildren m es cbp) p = kids cbp p \<union> childrenOf m es p"
proof (induction es arbitrary: cbp)
  case Nil
  then show ?case by (simp add: childrenOf_Nil)
next
  case (Cons e es)
  show ?case
    by (auto simp add: Cons.IH childrenOf_Cons[of m e es p] Let_def addChild_kids)
qed



lemma kids_entry: "kids cbp p \<noteq> {} \<Longrightarrow> (p, kids cbp p) \<in> set cbp"
  by (auto simp: kids_def split: option.splits dest: map_of_SomeD)


lemma built_has_entry:
  "childrenOf m es p \<noteq> {} \<Longrightarrow> (p, childrenOf m es p) \<in> set (buildChildren m es [])"
  using kids_entry[of "buildChildren m es []" p] buildChildren_kids[of m es "[]" p]
  by (simp add: kids_def)

lemma markHubChildren_mono: "R \<subseteq> markHubChildren m cbp R"
proof (induction cbp arbitrary: R)
  case Nil
  then show ?case by simp
next
  case (Cons a cbp)
  obtain p cs where a: "a = (p, cs)" by (cases a)
  show ?case unfolding a markHubChildren.simps
    by (rule order_trans[OF _ Cons.IH]) (auto split: option.splits)
qed

lemma markHubChildren_hub:
  "(p, cs) \<in> set cbp \<Longrightarrow> m p = Some k \<Longrightarrow> 1 \<le> k \<Longrightarrow> HUB_THRESHOLD \<le> card cs \<Longrightarrow>
   cs \<subseteq> markHubChildren m cbp R"
proof (induction cbp arbitrary: R)
  case Nil
  then show ?case by simp
next
  case (Cons a cbp)
  obtain q ds where a: "a = (q, ds)" by (cases a)
  show ?case
  proof (cases "(p, cs) = a")
    case True
    then have "markHubChildren m (a # cbp) R = markHubChildren m cbp (R \<union> cs)"
      using Cons.prems by (auto simp: a)
    then show ?thesis using markHubChildren_mono[of "R \<union> cs" m cbp] by auto
  next
    case False
    then have "(p, cs) \<in> set cbp" using Cons.prems by auto
    from Cons.IH[OF this Cons.prems(2,3,4)] show ?thesis unfolding a markHubChildren.simps .
  qed
qed


lemma closurePass_upper: "fst (closurePass cbp (R, ch)) \<subseteq> R \<union> \<Union>(snd ` set cbp)"
proof (induction cbp arbitrary: R ch)
  case Nil
  then show ?case by simp
next
  case (Cons a cbp)
  obtain p cs where a: "a = (p, cs)" by (cases a)
  show ?case using Cons.IH[of "R \<union> cs" "ch \<or> \<not> cs \<subseteq> R"] Cons.IH[of R ch]
    by (auto simp: a)
qed

lemma closurePass_flag: "snd (closurePass cbp (R, True))"
proof (induction cbp arbitrary: R)
  case Nil
  then show ?case by simp
next
  case (Cons a cbp)
  obtain p cs where a: "a = (p, cs)" by (cases a)
  show ?case using Cons.IH by (simp add: a)
qed

lemma closurePass_settled:
  "\<not> snd (closurePass cbp (R, ch)) \<Longrightarrow>
   fst (closurePass cbp (R, ch)) = R \<and> (\<forall>(p, cs) \<in> set cbp. p \<in> R \<longrightarrow> cs \<subseteq> R)"
proof (induction cbp arbitrary: R ch)
  case Nil
  then show ?case by simp
next
  case (Cons a cbp)
  obtain p cs where a: "a = (p, cs)" by (cases a)
  show ?case
  proof (cases "p \<in> R")
    case False
    then show ?thesis using Cons.IH[of R ch] Cons.prems by (auto simp: a)
  next
    case True
    have eq: "closurePass (a # cbp) (R, ch) = closurePass cbp (R \<union> cs, ch \<or> \<not> cs \<subseteq> R)"
      using True by (simp add: a)
    have sub: "cs \<subseteq> R"
    proof (rule ccontr)
      assume "\<not> cs \<subseteq> R"
      then have "snd (closurePass cbp (R \<union> cs, ch \<or> \<not> cs \<subseteq> R))"
        using closurePass_flag[of cbp "R \<union> cs"] by simp
      then show False using Cons.prems \<open>\<not> cs \<subseteq> R\<close> unfolding eq by simp
    qed
    then have "R \<union> cs = R" by auto
    then show ?thesis using Cons.IH[of R "ch \<or> \<not> cs \<subseteq> R"] Cons.prems sub unfolding eq
      by (auto simp: a)
  qed
qed

lemma closureLoop_props:
  "R \<subseteq> closureLoop cbp R
   \<and> closureLoop cbp R \<subseteq> R \<union> \<Union>(snd ` set cbp)
   \<and> (\<forall>(p, cs) \<in> set cbp. p \<in> closureLoop cbp R \<longrightarrow> cs \<subseteq> closureLoop cbp R)"
proof (induction cbp R rule: closureLoop.induct)
  case (1 cbp R)
  let ?R' = "fst (closurePass cbp (R, False))"
  show ?case
  proof (cases "snd (closurePass cbp (R, False))")
    case True
    have eq: "closureLoop cbp R = closureLoop cbp ?R'"
      using True by (subst closureLoop.simps) simp
    have m: "R \<subseteq> ?R'" by (rule closurePass_mono)
    have u: "?R' \<subseteq> R \<union> \<Union>(snd ` set cbp)" by (rule closurePass_upper)
    from "1.IH"[OF True] m u show ?thesis unfolding eq by blast
  next
    case False
    have eq: "closureLoop cbp R = ?R'"
      using False by (subst closureLoop.simps) simp
    from closurePass_settled[OF False] show ?thesis unfolding eq by auto
  qed
qed


lemma nodesToRemove_hub:
  assumes "m N = Some k" and "1 \<le> k" and "HUB_THRESHOLD \<le> card (childrenOf m es N)"
  shows "childrenOf m es N \<subseteq> nodesToRemove m es"
proof -
  have "childrenOf m es N \<noteq> {}" using assms(3) by (auto simp: HUB_THRESHOLD_def)
  then have "(N, childrenOf m es N) \<in> set (buildChildren m es [])" by (rule built_has_entry)
  then have "childrenOf m es N \<subseteq> markHubChildren m (buildChildren m es []) {}"
    using assms by (rule markHubChildren_hub)
  then show ?thesis
    using closureLoop_props[of "markHubChildren m (buildChildren m es []) {}" "buildChildren m es []"]
    unfolding nodesToRemove_def Let_def by blast
qed

lemma nodesToRemove_closed:
  assumes "p \<in> nodesToRemove m es" and "c \<in> childrenOf m es p"
  shows "c \<in> nodesToRemove m es"
proof -
  have "childrenOf m es p \<noteq> {}" using assms(2) by auto
  then have "(p, childrenOf m es p) \<in> set (buildChildren m es [])" by (rule built_has_entry)
  then show ?thesis
    using closureLoop_props[of "markHubChildren m (buildChildren m es []) {}" "buildChildren m es []"]
      assms
    unfolding nodesToRemove_def Let_def by blast
qed

lemma nodesToRemove_descendants:
  "(x, d) \<in> (childRel m es)\<^sup>* \<Longrightarrow> x \<in> nodesToRemove m es \<Longrightarrow> d \<in> nodesToRemove m es"
  by (induction rule: rtrancl_induct) (auto simp: childRel_def intro: nodesToRemove_closed)


lemma pruneGraph_nodes:
  "nodes (pruneGraph m ns es) = filter (\<lambda>node. node_id node \<notin> nodesToRemove m es) ns"
  by (simp add: pruneGraph_def Let_def)

lemma pruneGraph_edges:
  "edges (pruneGraph m ns es) =
     filter (\<lambda>edge. edge_from edge \<notin> nodesToRemove m es \<and> edge_to edge \<notin> nodesToRemove m es) es"
  by (simp add: pruneGraph_def Let_def)

text \<open>
  C2. For every graph (depth map, nodes, edges), if a node \<open>N\<close> with depth at least 1
  has at least 80 distinct direct children under the depth-comparison parent
  relation, then none of these children, and no node reached from one of them, or
  from any node marked for removal, along the parent-to-child relation, is in the
  pruned node list, and no pruned edge has such a node as an endpoint.
  \<open>getWordGraph\<close> returns \<open>pruneGraph\<close> of the depth map, nodes and edges of its search.
\<close>

theorem hub_pruned:
  assumes "m N = Some k" and "1 \<le> k" and "HUB_THRESHOLD \<le> card (childrenOf m es N)"
  shows "(\<forall>c d. c \<in> childrenOf m es N \<and> (c, d) \<in> (childRel m es)\<^sup>* \<longrightarrow>
            d \<notin> node_id ` set (nodes (pruneGraph m ns es))
            \<and> (\<forall>e \<in> set (edges (pruneGraph m ns es)). edge_from e \<noteq> d \<and> edge_to e \<noteq> d))
         \<and> (\<forall>x d. x \<in> nodesToRemove m es \<and> (x, d) \<in> (childRel m es)\<^sup>* \<longrightarrow>
            d \<notin> node_id ` set (nodes (pruneGraph m ns es))
            \<and> (\<forall>e \<in> set (edges (pruneGraph m ns es)). edge_from e \<noteq> d \<and> edge_to e \<noteq> d))"
proof -
  have gone: "d \<notin> node_id ` set (nodes (pruneGraph m ns es))
      \<and> (\<forall>e \<in> set (edges (pruneGraph m ns es)). edge_from e \<noteq> d \<and> edge_to e \<noteq> d)"
    if "d \<in> nodesToRemove m es" for d
    using that by (auto simp: pruneGraph_nodes pruneGraph_edges)
  have desc: "d \<in> nodesToRemove m es"
    if "x \<in> nodesToRemove m es" "(x, d) \<in> (childRel m es)\<^sup>*" for x d
    using nodesToRemove_descendants[OF that(2,1)] .
  have hub: "c \<in> nodesToRemove m es" if "c \<in> childrenOf m es N" for c
    using nodesToRemove_hub[OF assms] that by blast
  show ?thesis using gone desc hub by blast
qed

theorem hub_pruned_witness:
  "depthsB ''h'' = Some 1 \<and> (1::int) \<le> 1
   \<and> HUB_THRESHOLD \<le> card (childrenOf depthsB edgesB ''h'')
   \<and> ''x07'' \<in> childrenOf depthsB edgesB ''h''
   \<and> ''x07'' \<notin> node_id ` set (nodes (pruneGraph depthsB nodesB edgesB))
   \<and> \<lparr>edge_from = ''h'', edge_to = ''x07''\<rparr> \<notin> set (edges (pruneGraph depthsB nodesB edgesB))"
proof -
  have h1: "depthsB ''h'' = Some 1" by (simp add: depthsB_def)
  have h2: "(1::int) \<le> 1" by simp
  have h3: "HUB_THRESHOLD \<le> card (childrenOf depthsB edgesB ''h'')" by code_simp
  have c: "''x07'' \<in> childrenOf depthsB edgesB ''h''" by code_simp
  from hub_pruned[OF h1 h2 h3, of nodesB] c
  have "''x07'' \<notin> node_id ` set (nodes (pruneGraph depthsB nodesB edgesB))"
    and "\<forall>e \<in> set (edges (pruneGraph depthsB nodesB edgesB)). edge_to e \<noteq> ''x07''"
    by blast+
  then show ?thesis using c h1 h2 h3 by fastforce
qed

section \<open>Both searches compute minimum hop counts\<close>


lemma hops_related:
  "ownEntry data u = Some e \<Longrightarrow> (u, v) \<in> hops data \<longleftrightarrow>
     v \<in> normalize_word ` set (entry_relatedWords e) \<and> ownEntry data v \<noteq> None"
  by (auto simp: hops_def)

text \<open>
  In an index that mentions no inherited name, a related word of an entry whose
  lookup is truthy is a key.
\<close>

lemma own_truthy: "ownEntry data w \<noteq> None \<Longrightarrow> lookup data w \<noteq> Undefined"
  by (auto simp: lookup_def)





lemma relatedStep_nodes: "st_nodes (relatedStep data depth cw cd r s) = st_nodes s"
  by (simp add: relatedStep_def Let_def)



lemma processRelated_nodes: "st_nodes (processRelated data depth cw cd rels s) = st_nodes s"
  by (induction rels arbitrary: s) (simp_all add: relatedStep_nodes)









































section \<open>What \<open>getWordGraph\<close> returns\<close>

subsection \<open>Edges of the enqueue-time search\<close>

text \<open>
  \<open>edgeExists\<close> is membership of the unordered pair; an edge is pushed only when it
  does not exist yet, so the edge list of \<open>MemStorage.getWordGraph\<close> never holds an
  unordered pair twice, whatever the related lists contain. And an edge is pushed,
  unless its pair is there already, for every related word whose lookup is truthy,
  before the depth test: the pair of every hop that leaves an emitted node is in
  the list (\<open>edges_full\<close>).
\<close>

definition edges_full :: "EtymologyData \<Rightarrow> BfsState \<Rightarrow> bool" where
  "edges_full data s \<longleftrightarrow>
     (\<forall>n \<in> set (st_nodes s). \<forall>v. (node_id n, v) \<in> hops data
         \<longrightarrow> {node_id n, v} \<in> upair ` set (st_edges s))"

lemma edgeExists_upair: "edgeExists es a b \<longleftrightarrow> {a, b} \<in> upair ` set es"
  by (auto simp: edgeExists_def upair_def list_ex_iff doubleton_eq_iff image_iff)

lemma relatedStep_edges:
  "st_edges (relatedStep data depth cw cd r s) =
     st_edges s @ (if lookup data (normalize_word r) \<noteq> Undefined
                      \<and> \<not> edgeExists (st_edges s) cw (normalize_word r)
                   then [\<lparr>edge_from = cw, edge_to = normalize_word r\<rparr>] else [])"
  by (simp add: relatedStep_def Let_def)

lemma relatedStep_pairs:
  "distinct (map upair (st_edges s)) \<Longrightarrow>
   distinct (map upair (st_edges (relatedStep data depth cw cd r s)))"
  by (auto simp: relatedStep_edges edgeExists_upair upair_def)

lemma processRelated_pairs:
  "distinct (map upair (st_edges s)) \<Longrightarrow>
   distinct (map upair (st_edges (processRelated data depth cw cd rels s)))"
  by (induction rels arbitrary: s) (simp_all add: relatedStep_pairs)

lemma relatedStep_grows:
  "set (st_edges s) \<subseteq> set (st_edges (relatedStep data depth cw cd r s))"
  by (auto simp: relatedStep_edges)

lemma relatedStep_covers:
  "lookup data (normalize_word r) \<noteq> Undefined \<Longrightarrow>
   {cw, normalize_word r} \<in> upair ` set (st_edges (relatedStep data depth cw cd r s))"
proof (cases "edgeExists (st_edges s) cw (normalize_word r)")
  case True
  then show ?thesis using relatedStep_grows[of s data depth cw cd r]
    unfolding edgeExists_upair by blast
next
  case False
  assume "lookup data (normalize_word r) \<noteq> Undefined"
  then have "\<lparr>edge_from = cw, edge_to = normalize_word r\<rparr>
      \<in> set (st_edges (relatedStep data depth cw cd r s))"
    using False by (simp add: relatedStep_edges)
  then have "upair \<lparr>edge_from = cw, edge_to = normalize_word r\<rparr>
      \<in> upair ` set (st_edges (relatedStep data depth cw cd r s))"
    by (rule imageI)
  then show ?thesis by (simp add: upair_def)
qed

lemma processRelated_grows:
  "set (st_edges s) \<subseteq> set (st_edges (processRelated data depth cw cd rels s))"
proof (induction rels arbitrary: s)
  case Nil
  then show ?case by simp
next
  case (Cons r rels)
  show ?case
    using relatedStep_grows[of s data depth cw cd r]
      Cons.IH[of "relatedStep data depth cw cd r s"] by auto
qed

lemma processRelated_covers:
  "r \<in> set rels \<Longrightarrow> lookup data (normalize_word r) \<noteq> Undefined \<Longrightarrow>
   {cw, normalize_word r} \<in> upair ` set (st_edges (processRelated data depth cw cd rels s))"
proof (induction rels arbitrary: s)
  case Nil
  then show ?case by simp
next
  case (Cons r' rels)
  show ?case
  proof (cases "r = r'")
    case True
    have "{cw, normalize_word r}
        \<in> upair ` set (st_edges (relatedStep data depth cw cd r s))"
      by (rule relatedStep_covers[OF Cons.prems(2)])
    then show ?thesis
      using processRelated_grows[of "relatedStep data depth cw cd r s" data depth cw cd rels] True
      by auto
  next
    case False
    then have "r \<in> set rels" using Cons.prems(1) by simp
    from Cons.IH[OF this Cons.prems(2)] show ?thesis by simp
  qed
qed

lemma processRelated_full:
  assumes "edges_full data s" and "lookup data cw = EntryObject entry"
  shows "edges_full data
           (processRelated data depth cw h (entry_relatedWords entry)
              (s\<lparr>st_queue := q, st_nodes := st_nodes s @ [mkNode cw entry h]\<rparr>))"
proof -
  let ?s0 = "s\<lparr>st_queue := q, st_nodes := st_nodes s @ [mkNode cw entry h]\<rparr>"
  let ?s1 = "processRelated data depth cw h (entry_relatedWords entry) ?s0"
  have o: "ownEntry data cw = Some entry" using assms(2) by (simp add: lookup_EntryObject)
  have grow: "set (st_edges s) \<subseteq> set (st_edges ?s1)"
    using processRelated_grows[of ?s0 data depth cw h "entry_relatedWords entry"] by simp
  have cur: "{cw, v} \<in> upair ` set (st_edges ?s1)" if "(cw, v) \<in> hops data" for v
  proof -
    from that obtain r where r: "r \<in> set (entry_relatedWords entry)" "v = normalize_word r"
        and v: "ownEntry data v \<noteq> None"
      by (auto simp: hops_related[OF o])
    have "lookup data (normalize_word r) \<noteq> Undefined" using v r(2) own_truthy by simp
    from processRelated_covers[OF r(1) this] show ?thesis unfolding r(2) .
  qed
  show ?thesis unfolding edges_full_def
  proof (intro ballI allI impI)
    fix n v assume n: "n \<in> set (st_nodes ?s1)" and hop: "(node_id n, v) \<in> hops data"
    have "n \<in> set (st_nodes s) \<or> n = mkNode cw entry h"
      using n by (auto simp: processRelated_nodes)
    then show "{node_id n, v} \<in> upair ` set (st_edges ?s1)"
    proof
      assume "n \<in> set (st_nodes s)"
      then have "{node_id n, v} \<in> upair ` set (st_edges s)"
        using assms(1) hop unfolding edges_full_def by blast
      then show ?thesis using grow by blast
    next
      assume "n = mkNode cw entry h"
      then have "node_id n = cw" by (simp add: mkNode_def)
      then show ?thesis using cur hop by simp
    qed
  qed
qed

lemma bfsLoop_edges:
  "distinct (map upair (st_edges s)) \<and> edges_full data s \<Longrightarrow> bfsLoop data depth s = Inr s' \<Longrightarrow>
   distinct (map upair (st_edges s')) \<and> edges_full data s'"
proof (induction data depth s rule: bfsLoop.induct)
  case (1 data depth s)
  show ?case
  proof (cases "st_queue s")
    case Nil
    then show ?thesis using "1.prems" by (subst (asm) bfsLoop.simps) auto
  next
    case (Cons x q)
    obtain cw h where x: "x = (cw, h)" by (cases x)
    have p0: "distinct (map upair (st_edges (s\<lparr>st_queue := q\<rparr>)))
        \<and> edges_full data (s\<lparr>st_queue := q\<rparr>)"
      using "1.prems"(1) by (simp add: edges_full_def)
    show ?thesis
    proof (cases "h > depth")
      case True
      have "bfsLoop data depth (s\<lparr>st_queue := q\<rparr>) = Inr s'"
        using "1.prems"(2) True by (subst (asm) bfsLoop.simps) (simp add: Cons x)
      from "1.IH"(1)[OF Cons x[symmetric] True p0 this] show ?thesis .
    next
      case False
      show ?thesis
      proof (cases "lookup data cw")
        case Undefined
        have "bfsLoop data depth (s\<lparr>st_queue := q\<rparr>) = Inr s'"
          using "1.prems"(2) False Undefined by (subst (asm) bfsLoop.simps) (simp add: Cons x)
        from "1.IH"(2)[OF Cons x[symmetric] False Undefined p0 this] show ?thesis .
      next
        case (EntryObject entry)
        let ?s1 = "processRelated data depth cw h (entry_relatedWords entry)
            (s\<lparr>st_queue := q, st_nodes := st_nodes s @ [mkNode cw entry h]\<rparr>)"
        have "distinct (map upair (st_edges ?s1))"
          by (rule processRelated_pairs) (simp add: "1.prems"(1))
        moreover have "edges_full data ?s1"
          using "1.prems"(1) by (intro processRelated_full[OF _ EntryObject]) simp
        moreover have "bfsLoop data depth ?s1 = Inr s'"
          using "1.prems"(2) False EntryObject by (subst (asm) bfsLoop.simps) (simp add: Cons x)
        ultimately show ?thesis
          using "1.IH"(3)[OF Cons x[symmetric] False EntryObject] by blast
      next
        case Inherited
        then show ?thesis
          using "1.prems"(2) False by (subst (asm) bfsLoop.simps) (simp add: Cons x)
      qed
    qed
  qed
qed

lemma bfsGraph_edges:
  assumes "bfsGraph data r d = Inr s"
  shows "distinct (map upair (st_edges s))" and "edges_full data s"
  using bfsLoop_edges[OF _ assms[unfolded bfsGraph_def]] by (simp_all add: edges_full_def)

lemma getWordGraph_pairs:
  assumes "getWordGraph data w depth = Inr g"
  shows "distinct (map upair (edges g))"
proof (cases "lookup data (normalize_word w) = Undefined")
  case True
  then show ?thesis using assms by (auto simp: getWordGraph_def)
next
  case False
  then obtain s where s: "bfsGraph data (normalize_word w) depth = Inr s"
      and g: "g = pruneGraph (st_nodeDepthMap s) (st_nodes s) (st_edges s)"
    using assms by (auto simp: getWordGraph_def Let_def split: sum.splits)
  show ?thesis unfolding g pruneGraph_edges
    using bfsGraph_edges(1)[OF s] by (simp add: distinct_map_filter)
qed






subsection \<open>What pruning keeps\<close>
















subsection \<open>Endpoints of the returned edges\<close>





subsection \<open>Duplicate edges of the dequeue-time search\<close>

text \<open>
  C4. The dequeue-time \<open>getWordGraph\<close> pushes an edge for every related word that is
  not yet visited, and a word is visited only when it is dequeued: on the index whose
  word \<open>a\<close> lists \<open>b\<close> twice it returns the edge \<open>a\<close>--\<open>b\<close> twice. The enqueue-time
  function tests \<open>edgeExists\<close> first and never does (\<open>getWordGraph_pairs\<close> above).
\<close>

theorem getWordGraph_lambda_duplicate_edge:
  "edges (getWordGraph_lambda twice ''a'' 1) =
     [\<lparr>edge_from = ''a'', edge_to = ''b''\<rparr>, \<lparr>edge_from = ''a'', edge_to = ''b''\<rparr>]"
  by code_simp

subsection \<open>Depths and multiplicity of the returned nodes\<close>







end
